theory Spec2Isabelle
  imports Main "HOL-Library.Word" "HOL-Library.List_Lexorder" "HOL-Library.Signed_Division"
    "HOL-Library.Sublist"
begin

unbundle bit_operations_syntax

section \<open>Go values\<close>

text \<open>
  A Go \<open>[]byte\<close> and a Go \<open>string\<close> are both sequences of bytes; strings compare
  byte-wise and lexicographically, which is the order of \<open>HOL-Library.List_Lexorder\<close> on
  lists of unsigned 8-bit words. Where the program only reads the content of a byte slice
  (hashing, \<open>bytes.Equal\<close>, \<open>len\<close>) the nil slice and the empty slice behave alike and both
  are the empty list. Where the program tests a slice against \<open>nil\<close> the slice is an
  \<open>option\<close>: \<open>None\<close> is nil, \<open>Some xs\<close> is a non-nil slice holding \<open>xs\<close>.

  Go's \<open>int\<close> has 64 bits on the platforms the program is built for, and its arithmetic
  wraps around. Lengths and indices of slices that fit in memory stay far away from the
  64-bit boundary, and there the integers of HOL model them; where \<open>MthFromRangeAp\<close>
  validates an index and a size that its caller chooses freely, the wrap-around of the sum
  and of the difference it tests is written out with \<open>wrap64\<close>.
\<close>

type_synonym byte = "8 word"
type_synonym bytes = "byte list"

text \<open>The value a 64-bit signed integer takes for the mathematical result \<open>x\<close>.\<close>

definition wrap64 :: "int \<Rightarrow> int" where
  "wrap64 x = (x + 2 ^ 63) mod 2 ^ 64 - 2 ^ 63"

subsection \<open>Helpers of the Merkle tree (src/unnamed/part_000, first file)\<close>

definition hashLen :: nat where
  "hashLen = 32"

text \<open>\<open>min\<close> of the source.\<close>

definition min_go :: "int \<Rightarrow> int \<Rightarrow> int" where
  "min_go a b = (if a < b then a else b)"

text \<open>\<open>head\<close>: first entry and tail of a path; the tail of a path of one entry is nil.\<close>

fun head :: "bytes list option \<Rightarrow> bytes \<times> bytes list option" where
  "head None = ([], None)"
| "head (Some []) = ([], None)"
| "head (Some [x]) = (x, None)"
| "head (Some (x # y # ys)) = (x, Some (y # ys))"

text \<open>\<open>last\<close>: the last entry, nil (the empty byte string) when there is none.\<close>

fun last_go :: "bytes list option \<Rightarrow> bytes" where
  "last_go None = []"
| "last_go (Some xs) = (if 0 < length xs then xs ! (length xs - 1) else [])"

text \<open>\<open>next\<close>: the path without its last entry; nil when at most one entry is left.\<close>

fun next_go :: "bytes list option \<Rightarrow> bytes list option" where
  "next_go None = None"
| "next_go (Some xs) = (if 1 < length xs then Some (take (length xs - 1) xs) else None)"

text \<open>
  \<open>big.Int.BitLen\<close>: the number of bits of the absolute value, 0 for 0.
\<close>

fun BitLen :: "nat \<Rightarrow> nat" where
  "BitLen n = (if n = 0 then 0 else Suc (BitLen (n div 2)))"

declare BitLen.simps [simp del]

text \<open>
  \<open>lpow2s n = int(math.Pow(2, float64(big.NewInt(int64(n-1)).BitLen()-1)))\<close>.
  The exponent is an integer between \<open>-1\<close> and 63. For an exponent \<open>e \<ge> 0\<close> the float64
  power \<open>2^e\<close> is exact and converts back to the integer \<open>2^e\<close>; for \<open>e = -1\<close>
  (only when \<open>n = 1\<close>) the power is \<open>0.5\<close>, which the conversion truncates to 0.
\<close>

definition lpow2s :: "int \<Rightarrow> int" where
  "lpow2s n =
     (let e = int (BitLen (nat \<bar>n - 1\<bar>)) - 1
      in if e < 0 then 0 else 2 ^ nat e)"

subsection \<open>The Merkle tree (src/unnamed/part_000, second file)\<close>

text \<open>
  \<open>hashCache\<close> is reached through pointers: \<open>NilCache\<close> is the nil pointer, \<open>Cache this l r\<close>
  a node whose digest \<open>this\<close> is \<open>None\<close> until it has been computed. The digest a hash
  function returns is taken to be a non-nil slice, as the one of \<open>sha256\<close> is.
  Reading a field through the nil pointer panics; a panic is the result \<open>None\<close>.
\<close>

datatype hashCache = NilCache | Cache "bytes option" hashCache hashCache

record MerkleTree =
  mt_twc :: bytes
  mt_leafPrefix :: bytes
  mt_interiorPrefix :: bytes
  mt_hash :: "bytes list \<Rightarrow> bytes"
  mt_data :: "bytes list"
  mt_cache :: hashCache

text \<open>\<open>new(hashCache)\<close>: a node with no digest and no children.\<close>

definition new_hashCache :: hashCache where
  "new_hashCache = Cache None NilCache NilCache"

definition NewMerkleTree ::
  "bytes \<Rightarrow> bytes \<Rightarrow> bytes \<Rightarrow> (bytes list \<Rightarrow> bytes) \<Rightarrow> bytes list \<Rightarrow> MerkleTree" where
  "NewMerkleTree twc leafPrefix interiorPrefix h data =
     \<lparr>mt_twc = twc, mt_leafPrefix = leafPrefix, mt_interiorPrefix = interiorPrefix,
      mt_hash = h, mt_data = data, mt_cache = new_hashCache\<rparr>"

section \<open>The split point\<close>

lemma BitLen_0 [simp]: "BitLen 0 = 0"
  by (simp add: BitLen.simps)

lemma BitLen_pos: "0 < m \<Longrightarrow> BitLen m = Suc (BitLen (m div 2))"
  by (subst BitLen.simps) simp

lemma BitLen_bounds: "0 < m \<Longrightarrow> 2 ^ (BitLen m - 1) \<le> m \<and> m < 2 ^ BitLen m"
proof (induction m rule: BitLen.induct)
  case (1 m)
  show ?case
  proof (cases "m div 2 = 0")
    case True
    with "1.prems" have "m = 1" by presburger
    then show ?thesis by (simp add: BitLen_pos)
  next
    case False
    then have pos: "0 < m div 2" by simp
    with "1.IH" "1.prems"
    have IH: "2 ^ (BitLen (m div 2) - 1) \<le> m div 2" "m div 2 < 2 ^ BitLen (m div 2)"
      by auto
    have bl: "BitLen m = Suc (BitLen (m div 2))"
      using "1.prems" by (rule BitLen_pos)
    have "0 < BitLen (m div 2)"
      using pos by (simp add: BitLen_pos)
    then have e: "BitLen (m div 2) = Suc (BitLen (m div 2) - 1)" by simp
    have lo: "2 ^ BitLen (m div 2) \<le> m"
    proof -
      have "(2::nat) ^ BitLen (m div 2) = 2 * 2 ^ (BitLen (m div 2) - 1)"
        by (subst e) simp
      also have "\<dots> \<le> 2 * (m div 2)" using IH(1) by simp
      also have "\<dots> \<le> m" by simp
      finally show ?thesis .
    qed
    have hi: "m < 2 * 2 ^ BitLen (m div 2)"
      using IH(2) by linarith
    show ?thesis using lo hi by (simp add: bl)
  qed
qed

lemma lpow2s_eq:
  assumes "2 \<le> n"
  shows "lpow2s n = 2 ^ (BitLen (nat (n - 1)) - 1)"
proof -
  define b where "b = BitLen (nat (n - 1))"
  have "0 < nat (n - 1)" using assms by simp
  then have "0 < b" unfolding b_def by (simp add: BitLen_pos)
  then have e: "\<not> int b - 1 < 0" "nat (int b - 1) = b - 1"
    by simp_all
  have a: "\<bar>n - 1\<bar> = n - 1" using assms by simp
  have "lpow2s n = (if int b - 1 < 0 then 0 else 2 ^ nat (int b - 1))"
    unfolding lpow2s_def Let_def a b_def ..
  also have "\<dots> = 2 ^ (b - 1)"
    by (simp only: e if_False)
  finally show ?thesis unfolding b_def .
qed

lemma lpow2s_bounds:
  assumes "2 \<le> n"
  shows "1 \<le> lpow2s n" and "lpow2s n < n" and "n \<le> 2 * lpow2s n"
proof -
  let ?m = "nat (n - 1)"
  have m: "0 < ?m" using assms by simp
  from BitLen_bounds [OF m]
  have lo: "2 ^ (BitLen ?m - 1) \<le> ?m" and hi: "?m < 2 ^ BitLen ?m" by auto
  have "0 < BitLen ?m" using m by (simp add: BitLen_pos)
  then have e: "BitLen ?m = Suc (BitLen ?m - 1)" by simp
  have hi': "?m < 2 * 2 ^ (BitLen ?m - 1)"
    using hi by (subst (asm) e) simp
  have eq: "lpow2s n = int (2 ^ (BitLen ?m - 1))"
    using lpow2s_eq [OF assms] by simp
  show "1 \<le> lpow2s n" unfolding eq by simp
  show "lpow2s n < n" unfolding eq using lo assms by linarith
  show "n \<le> 2 * lpow2s n" unfolding eq using hi' assms by linarith
qed

lemma power2_int_below:
  assumes "(2::int) ^ j < n" and "n \<le> 2 * 2 ^ e"
  shows "(2::int) ^ j \<le> 2 ^ e"
proof -
  have "(2::int) ^ j < 2 ^ Suc e" using assms by simp
  then have "j < Suc e" by (simp only: power_strict_increasing_iff)
  then have "j \<le> e" by simp
  then show ?thesis by (simp only: power_increasing_iff)
qed

text \<open>
  C10. For every integer \<open>n\<close> with \<open>2 \<le> n \<le> 2^53\<close>, \<open>lpow2s n\<close> is the largest power
  of two strictly less than \<open>n\<close>: it is a power of two, it is below \<open>n\<close>, and every power of
  two below \<open>n\<close> is at most \<open>lpow2s n\<close>. In particular \<open>1 \<le> lpow2s n \<le> n - 1\<close>, so both
  halves of a split are non-empty and strictly smaller than the whole.
\<close>

theorem lpow2s_largest_power_of_two_below:
  assumes "2 \<le> n" and "n \<le> 2 ^ 53"
  shows "(\<exists>e. lpow2s n = 2 ^ e) \<and> lpow2s n < n
    \<and> (\<forall>j. (2::int) ^ j < n \<longrightarrow> 2 ^ j \<le> lpow2s n)
    \<and> 1 \<le> lpow2s n \<and> lpow2s n \<le> n - 1
    \<and> 1 \<le> n - lpow2s n \<and> n - lpow2s n \<le> n - 1"
proof -
  have eq: "lpow2s n = 2 ^ (BitLen (nat (n - 1)) - 1)"
    using assms(1) by (rule lpow2s_eq)
  note b = lpow2s_bounds [OF assms(1)]
  have max: "(2::int) ^ j \<le> lpow2s n" if "(2::int) ^ j < n" for j
    using that b(3) unfolding eq by (rule power2_int_below)
  have ex: "\<exists>e. lpow2s n = 2 ^ e" using eq by (rule exI)
  have "lpow2s n \<le> n - 1" "1 \<le> n - lpow2s n" "n - lpow2s n \<le> n - 1"
    using b by linarith+
  with ex b(1,2) max show ?thesis by blast
qed

theorem lpow2s_largest_power_of_two_below_witness:
  "(2::int) \<le> 9 \<and> (9::int) \<le> 2 ^ 53 \<and> lpow2s 9 < 9 \<and> (2::int) ^ 3 \<le> lpow2s 9
    \<and> 1 \<le> lpow2s 9 \<and> lpow2s 9 \<le> 9 - 1"
proof -
  have h: "(2::int) \<le> 9" "(9::int) \<le> 2 ^ 53" by simp_all
  note t = lpow2s_largest_power_of_two_below [OF h]
  from t have a: "lpow2s 9 < 9" "1 \<le> lpow2s 9" "lpow2s 9 \<le> 9 - 1"
    by blast+
  from t have "\<forall>j. (2::int) ^ j < 9 \<longrightarrow> 2 ^ j \<le> lpow2s 9" by blast
  then have "(2::int) ^ 3 < 9 \<longrightarrow> (2::int) ^ 3 \<le> lpow2s 9" by (rule spec)
  moreover have "(2::int) ^ 3 < 9" by simp
  ultimately have "(2::int) ^ 3 \<le> lpow2s 9" by (rule mp)
  with h a show ?thesis by blast
qed

section \<open>The tree head\<close>

lemma split_point:
  assumes "2 \<le> length (data :: 'a list)"
  shows "0 < nat (lpow2s (int (length data)))"
    and "nat (lpow2s (int (length data))) < length data"
    and "length data \<le> 2 * nat (lpow2s (int (length data)))"
proof -
  have n: "2 \<le> int (length data)" using assms by simp
  note b = lpow2s_bounds [OF n]
  show "0 < nat (lpow2s (int (length data)))" using b(1) by simp
  show "nat (lpow2s (int (length data))) < length data" using b(1,2) by linarith
  show "length data \<le> 2 * nat (lpow2s (int (length data)))" using b(1,3) by linarith
qed

text \<open>
  \<open>mth\<close>: the digest of \<open>data\<close>, read from the cache node \<open>c\<close> when it is there and
  computed and stored otherwise. The result carries the node as the call leaves it.
\<close>

function mth :: "MerkleTree \<Rightarrow> bytes list \<Rightarrow> hashCache \<Rightarrow> (bytes \<times> hashCache) option" where
  "mth mt data NilCache = None"
| "mth mt data (Cache (Some h) l r) = Some (h, Cache (Some h) l r)"
| "mth mt data (Cache None l r) =
     (if length data = 0 then
        (let h = mt_hash mt [mt_twc mt] in Some (h, Cache (Some h) l r))
      else if length data = 1 then
        (let h = mt_hash mt [mt_twc mt, mt_leafPrefix mt, data ! 0]
         in Some (h, Cache (Some h) l r))
      else
        (let k = nat (lpow2s (int (length data))) in
         case mth mt (take k data) new_hashCache of
           None \<Rightarrow> None
         | Some (hl, cl) \<Rightarrow>
            (case mth mt (drop k data) new_hashCache of
               None \<Rightarrow> None
             | Some (hr, cr) \<Rightarrow>
                (let h = mt_hash mt [mt_interiorPrefix mt, hl, hr]
                 in Some (h, Cache (Some h) cl cr)))))"
  by pat_completeness auto
termination
proof (relation "measure (\<lambda>(mt, data, c). length data)")
  show "wf (measure (\<lambda>(mt, data, c). length data))" by simp
next
  fix mt :: MerkleTree and data :: "bytes list" and l r :: hashCache and k :: nat
  assume "length data \<noteq> 0" "length data \<noteq> 1" "k = nat (lpow2s (int (length data)))"
  then have "2 \<le> length data" by linarith
  from split_point(1,2) [OF this] \<open>k = _\<close>
  show "((mt, take k data, new_hashCache), (mt, data, Cache None l r))
        \<in> measure (\<lambda>(mt, data, c). length data)"
    by simp
next
  fix mt :: MerkleTree and data :: "bytes list" and l r :: hashCache and k :: nat
    and x2 :: "bytes \<times> hashCache" and x y
  assume "length data \<noteq> 0" "length data \<noteq> 1" "k = nat (lpow2s (int (length data)))"
  then have "2 \<le> length data" by linarith
  from split_point(1,2) [OF this] \<open>k = _\<close>
  show "((mt, drop k data, new_hashCache), (mt, data, Cache None l r))
        \<in> measure (\<lambda>(mt, data, c). length data)"
    by simp
qed

declare mth.simps(3) [simp del]

text \<open>\<open>Mth\<close>: the tree head; the tree comes back with the cache the call has filled.\<close>

definition Mth :: "MerkleTree \<Rightarrow> (bytes \<times> MerkleTree) option" where
  "Mth mt =
     (case mth mt (mt_data mt) (mt_cache mt) of
        None \<Rightarrow> None
      | Some (h, c) \<Rightarrow> Some (h, mt\<lparr>mt_cache := c\<rparr>))"

section \<open>Audit paths\<close>

text \<open>\<open>append(p, h)\<close> on a path: appending to the nil path gives a path of one entry.\<close>

fun append_go :: "'a list option \<Rightarrow> 'a \<Rightarrow> 'a list option" where
  "append_go None h = Some [h]"
| "append_go (Some xs) h = Some (xs @ [h])"

text \<open>
  \<open>ap\<close>: the audit path of leaf \<open>m\<close>. It reads the children of the cache node \<open>c\<close>, so on
  a node that \<open>mth\<close> has not filled it dereferences a nil pointer (the result \<open>None\<close>).
  The slices \<open>data[:k]\<close> and \<open>data[k:]\<close> are in range, since \<open>0 < k < len(data)\<close> here.
\<close>

function ap ::
  "MerkleTree \<Rightarrow> int \<Rightarrow> bytes list \<Rightarrow> hashCache \<Rightarrow> (bytes list option \<times> hashCache) option" where
  "ap mt m data c =
     (if length data \<le> 1 then Some (None, c)
      else
        (case c of
           NilCache \<Rightarrow> None
         | Cache this l r \<Rightarrow>
            (let k = lpow2s (int (length data)) in
             if m < k then
               (case ap mt m (take (nat k) data) l of
                  None \<Rightarrow> None
                | Some (p, l') \<Rightarrow>
                   (case mth mt (drop (nat k) data) r of
                      None \<Rightarrow> None
                    | Some (h, r') \<Rightarrow> Some (append_go p h, Cache this l' r')))
             else
               (case ap mt (m - k) (drop (nat k) data) r of
                  None \<Rightarrow> None
                | Some (p, r') \<Rightarrow>
                   (case mth mt (take (nat k) data) l of
                      None \<Rightarrow> None
                    | Some (h, l') \<Rightarrow> Some (append_go p h, Cache this l' r'))))))"
  by pat_completeness auto
termination
proof (relation "measure (\<lambda>(mt, m, data, c). length data)")
  show "wf (measure (\<lambda>(mt, m, data, c). length data))" by simp
next
  fix mt :: MerkleTree and m :: int and data :: "bytes list" and c l r :: hashCache
    and this :: "bytes option" and k :: int
  assume "\<not> length data \<le> 1" "k = lpow2s (int (length data))"
  then have "2 \<le> length data" by linarith
  from split_point(1,2) [OF this] \<open>k = _\<close>
  show "((mt, m, take (nat k) data, l), (mt, m, data, c))
        \<in> measure (\<lambda>(mt, m, data, c). length data)"
    by simp
next
  fix mt :: MerkleTree and m :: int and data :: "bytes list" and c l r :: hashCache
    and this :: "bytes option" and k :: int
  assume "\<not> length data \<le> 1" "k = lpow2s (int (length data))"
  then have "2 \<le> length data" by linarith
  from split_point(1,2) [OF this] \<open>k = _\<close>
  show "((mt, m - k, drop (nat k) data, r), (mt, m, data, c))
        \<in> measure (\<lambda>(mt, m, data, c). length data)"
    by simp
qed

declare ap.simps [simp del]

definition Ap :: "MerkleTree \<Rightarrow> int \<Rightarrow> (bytes list option \<times> MerkleTree) option" where
  "Ap mt m =
     (case ap mt m (mt_data mt) (mt_cache mt) of
        None \<Rightarrow> None
      | Some (p, c) \<Rightarrow> Some (p, mt\<lparr>mt_cache := c\<rparr>))"

text \<open>
  The loop of \<open>MthFromAp\<close>. Go's \<open>%\<close> and \<open>/\<close> truncate towards zero: \<open>smod\<close> and
  \<open>sdiv\<close>.
\<close>

lemma sdiv_2_pos:
  assumes "0 < (x::int)"
  shows "x sdiv 2 = x div 2"
  using assms by (simp add: signed_divide_int_def)

lemma sdiv_2_less:
  assumes "0 < (x::int)"
  shows "x sdiv 2 < x"
  using assms by (simp add: sdiv_2_pos)

function MthFromAp_loop ::
  "MerkleTree \<Rightarrow> bytes \<Rightarrow> int \<Rightarrow> int \<Rightarrow> bytes list option \<Rightarrow> bytes" where
  "MthFromAp_loop mt r index lastIndex path =
     (if lastIndex > 0 then
        (if index smod 2 = 1 then
           (case head path of (l, path') \<Rightarrow>
              MthFromAp_loop mt (mt_hash mt [mt_interiorPrefix mt, l, r])
                (index sdiv 2) (lastIndex sdiv 2) path')
         else if index < lastIndex then
           (case head path of (l, path') \<Rightarrow>
              MthFromAp_loop mt (mt_hash mt [mt_interiorPrefix mt, r, l])
                (index sdiv 2) (lastIndex sdiv 2) path')
         else MthFromAp_loop mt r (index sdiv 2) (lastIndex sdiv 2) path)
      else r)"
  by pat_completeness auto
termination
  by (relation "measure (\<lambda>(mt, r, index, lastIndex, path). nat lastIndex)")
    (simp_all add: sdiv_2_less)

declare MthFromAp_loop.simps [simp del]

definition MthFromAp :: "MerkleTree \<Rightarrow> bytes \<Rightarrow> int \<Rightarrow> int \<Rightarrow> bytes list option \<Rightarrow> bytes" where
  "MthFromAp mt l index sz path =
     MthFromAp_loop mt (mt_hash mt [mt_twc mt, mt_leafPrefix mt, l]) index (sz - 1) path"

section \<open>Range proofs\<close>

text \<open>
  \<open>split\<close>: how many entries of a range of \<open>n\<close> leaves starting at \<open>i\<close> fall left of
  the split point \<open>k\<close>, and where the range starts in each half.
\<close>

definition split :: "int \<Rightarrow> int \<Rightarrow> int \<Rightarrow> int \<times> int \<times> int" where
  "split k n i =
     (let s = k - i
      in if s > 0 then (min_go n s, i, 0) else (0, 0, - s))"

lemma split_sindex_range: "0 \<le> n \<Longrightarrow> 0 \<le> fst (split k n i) \<and> fst (split k n i) \<le> n"
  by (simp add: split_def min_go_def Let_def)

lemma lpow2s_pos:
  assumes "n \<noteq> 1"
  shows "1 \<le> lpow2s n"
proof -
  define b where "b = BitLen (nat \<bar>n - 1\<bar>)"
  have "0 < nat \<bar>n - 1\<bar>" using assms by simp
  then have "0 < b" unfolding b_def by (simp add: BitLen_pos)
  then have e: "\<not> int b - 1 < 0" by simp
  have "lpow2s n = (if int b - 1 < 0 then 0 else 2 ^ nat (int b - 1))"
    unfolding lpow2s_def Let_def b_def ..
  also have "\<dots> = 2 ^ nat (int b - 1)"
    by (simp only: e if_False)
  finally show ?thesis by simp
qed

text \<open>
  \<open>dp\<close>: one audit path threaded down a subtree. The first component of \<open>split\<close> lies
  between 0 and \<open>len(data)\<close>, so the slices \<open>data[:sindex]\<close> and \<open>data[sindex:]\<close> never
  panic; \<open>last(data)\<close> is read on a non-empty \<open>data\<close>.
\<close>

function dp :: "MerkleTree \<Rightarrow> bytes list \<Rightarrow> int \<Rightarrow> int \<Rightarrow> bytes list option \<Rightarrow> bytes" where
  "dp mt data i n path =
     (if length data = 0 then last_go path
      else if n = 1 then mt_hash mt [mt_twc mt, mt_leafPrefix mt, last_go (Some data)]
      else
        (let k = lpow2s n in
         case split k (int (length data)) i of (sindex, lindex, rindex) \<Rightarrow>
           mt_hash mt [mt_interiorPrefix mt,
             dp mt (take (nat sindex) data) lindex k (next_go path),
             dp mt (drop (nat sindex) data) rindex (n - k) (next_go path)]))"
  by pat_completeness auto

termination
proof (relation "measures [\<lambda>(mt, data, i, n, path). if n \<le> 0 then 1 else 0,
    \<lambda>(mt, data, i, n, path). if n \<le> 0 then length data else 0,
    \<lambda>(mt, data, i, n, path). if n \<le> 0 then nat i else nat n]")
  show "wf (measures [\<lambda>(mt, data, i, n, path). if n \<le> 0 then 1 else 0,
    \<lambda>(mt, data, i, n, path). if n \<le> 0 then length (data::bytes list) else 0,
    \<lambda>(mt::MerkleTree, data, i, n, path::bytes list option). if n \<le> 0 then nat i else nat n])"
    by simp
next
  fix mt :: MerkleTree and data :: "bytes list" and i n k sindex lindex rindex :: int
    and path :: "bytes list option" and y
  assume a: "length data \<noteq> 0" "n \<noteq> 1" "k = lpow2s n"
    "(sindex, y) = split k (int (length data)) i" "(lindex, rindex) = y"
  show "((mt, take (nat sindex) data, lindex, k, next_go path), (mt, data, i, n, path))
     \<in> measures [\<lambda>(mt, data, i, n, path). if n \<le> 0 then 1 else 0,
    \<lambda>(mt, data, i, n, path). if n \<le> 0 then length data else 0,
    \<lambda>(mt, data, i, n, path). if n \<le> 0 then nat i else nat n]"
  proof (cases "n \<le> 0")
    case True
    have "1 \<le> k" using a(2,3) lpow2s_pos by simp
    with True show ?thesis by simp
  next
    case False
    with a(2) have "2 \<le> n" by simp
    from lpow2s_bounds [OF this] a(3) show ?thesis by simp
  qed
next
  fix mt :: MerkleTree and data :: "bytes list" and i n k sindex lindex rindex :: int
    and path :: "bytes list option" and y
  assume a: "length data \<noteq> 0" "n \<noteq> 1" "k = lpow2s n"
    "(sindex, y) = split k (int (length data)) i" "(lindex, rindex) = y"
  show "((mt, drop (nat sindex) data, rindex, n - k, next_go path), (mt, data, i, n, path))
     \<in> measures [\<lambda>(mt, data, i, n, path). if n \<le> 0 then 1 else 0,
    \<lambda>(mt, data, i, n, path). if n \<le> 0 then length data else 0,
    \<lambda>(mt, data, i, n, path). if n \<le> 0 then nat i else nat n]"
  proof (cases "n \<le> 0")
    case True
    have k: "1 \<le> k" using a(2,3) lpow2s_pos by simp
    have sp: "split k (int (length data)) i = (sindex, lindex, rindex)"
      using a(4,5) by simp
    show ?thesis
    proof (cases "k - i > 0")
      case s: True
      then have "sindex = min_go (int (length data)) (k - i)"
        using sp by (auto simp add: split_def Let_def)
      moreover have len: "1 \<le> int (length data)" using a(1) by (cases data) simp_all
      ultimately have "1 \<le> sindex" using s unfolding min_go_def by (simp split: if_splits)
      then have "length (drop (nat sindex) data) < length data" using len by simp
      with True k show ?thesis by simp
    next
      case s: False
      then have "sindex = 0" "rindex = i - k"
        using sp by (auto simp add: split_def Let_def)
      with True k s show ?thesis by simp
    qed
  next
    case False
    with a(2) have "2 \<le> n" by simp
    from lpow2s_bounds [OF this] a(3) show ?thesis by simp
  qed
qed


declare dp.simps [simp del]

text \<open>
  \<open>jp\<close>: both audit paths go down the same child as long as their outermost
  entries are equal; once they differ, or one of them is nil, each half is rebuilt by \<open>dp\<close>.
\<close>

fun path_size :: "bytes list option \<Rightarrow> nat" where
  "path_size None = 0"
| "path_size (Some xs) = Suc (length xs)"

lemma path_size_next_go: "p \<noteq> None \<Longrightarrow> path_size (next_go p) < path_size p"
  by (cases p) auto

function jp ::
  "MerkleTree \<Rightarrow> bytes list \<Rightarrow> int \<Rightarrow> int \<Rightarrow> bytes list option \<Rightarrow> bytes list option \<Rightarrow> bytes"
  where
  "jp mt data i n lAp rAp =
     (let k = lpow2s n in
      case split k (int (length data)) i of (sindex, lindex, rindex) \<Rightarrow>
        if lAp \<noteq> None \<and> rAp \<noteq> None \<and> last_go lAp = last_go rAp then
          (if sindex > 0 then
             mt_hash mt [mt_interiorPrefix mt,
               jp mt data lindex k (next_go lAp) (next_go rAp),
               last_go lAp]
           else
             mt_hash mt [mt_interiorPrefix mt,
               last_go rAp,
               jp mt data rindex (n - k) (next_go lAp) (next_go rAp)])
        else
          (let lAp' = (if lAp = None then rAp else lAp);
               rAp' = (if lAp \<noteq> None \<and> rAp = None then lAp else rAp)
           in mt_hash mt [mt_interiorPrefix mt,
                dp mt (take (nat sindex) data) lindex k lAp',
                dp mt (drop (nat sindex) data) rindex (n - k) rAp']))"
  by pat_completeness auto
termination
  by (relation "measure (\<lambda>(mt, data, i, n, lAp, rAp). path_size lAp)")
    (simp_all add: path_size_next_go)

declare jp.simps [simp del]

text \<open>
  The four errors of \<open>MthFromRangeAp\<close>, in the order of the source:
  "malformed proof: tree is empty", "malformed proof: the root is a leaf",
  "malformed proof: tree too small", "malformed proof: expected range but got exact".
\<close>

datatype error = TreeIsEmpty | RootIsLeaf | TreeTooSmall | ExpectedRange

text \<open>\<open>len\<close> of a slice that may be nil, and its entries.\<close>

fun len :: "'a list option \<Rightarrow> int" where
  "len None = 0"
| "len (Some xs) = int (length xs)"

fun entries :: "'a list option \<Rightarrow> 'a list" where
  "entries None = []"
| "entries (Some xs) = xs"

text \<open>
  \<open>MthFromRangeAp\<close>. The sum \<open>i + len(data)\<close> and the difference \<open>n - 1\<close> of the two
  validations are 64-bit operations.
\<close>

definition MthFromRangeAp ::
  "MerkleTree \<Rightarrow> bytes list option \<Rightarrow> int \<Rightarrow> int \<Rightarrow> bytes list option \<Rightarrow> bytes list option
    \<Rightarrow> error + bytes" where
  "MthFromRangeAp mt data i n lAp rAp =
     (if n = 0 then
        (if data \<noteq> None \<or> i \<ge> 0 \<or> lAp \<noteq> None \<or> rAp \<noteq> None then Inl TreeIsEmpty
         else Inr (mt_hash mt [mt_twc mt]))
      else if n = 1 then
        (if len data \<noteq> 1 \<or> i \<noteq> 0 \<or> lAp \<noteq> None \<or> rAp \<noteq> None then Inl RootIsLeaf
         else Inr (mt_hash mt [mt_twc mt, mt_leafPrefix mt, entries data ! 0]))
      else if wrap64 (i + len data) > n then Inl TreeTooSmall
      else if len data = 1 \<and> i > 0 \<and> i < wrap64 (n - 1) then Inl ExpectedRange
      else Inr (jp mt (entries data) i n lAp rAp))"

text \<open>Inside the 64-bit range nothing wraps.\<close>

lemma wrap64_id: "- (2 ^ 63) \<le> x \<Longrightarrow> x < 2 ^ 63 \<Longrightarrow> wrap64 x = x"
proof -
  assume a: "- (2 ^ 63) \<le> x" "x < 2 ^ 63"
  have "(x + 2 ^ 63) mod 2 ^ 64 = x + 2 ^ 63"
    using a by (intro mod_pos_pos_trivial) simp_all
  then show ?thesis unfolding wrap64_def by simp
qed

section \<open>The wildcard tree (src/lwm.go)\<close>

definition leafPrefix :: bytes where
  "leafPrefix = [0x00]"

definition interiorPrefix :: bytes where
  "interiorPrefix = [0x01]"

record Answer =
  subject :: "bytes list"
  payload :: "bytes list list"

record Proof =
  p_hash :: "bytes list \<Rightarrow> bytes"
  p_twc :: bytes
  p_index :: int
  p_ll :: "bytes option"
  p_rl :: "bytes option"
  p_lap :: "bytes list option"
  p_rap :: "bytes list option"

record radixValue =
  rv_payload :: "bytes list"
  rv_index :: int

text \<open>
  Modelled from the spec: the ordered-prefix index (the library \<open>armon/go-radix\<close>, not
  part of the sources). Section 4.B of the specification fixes its contract: iteration in
  strictly ascending lexicographic order over all keys, and over all keys that have a given
  string as a prefix, in the same order. A tree is the list of its entries in that order.
  A Go map is an association list whose keys are distinct; the order of the list carries
  no meaning, since \<open>NewFromMap\<close> inserts every pair. The walk visits every entry, because
  the callbacks of this program always return \<open>false\<close>.
\<close>

definition radix_NewFromMap :: "(bytes \<times> 'v) list \<Rightarrow> (bytes \<times> 'v) list" where
  "radix_NewFromMap m = sort_key fst m"

definition radix_WalkPrefix :: "(bytes \<times> 'v) list \<Rightarrow> bytes \<Rightarrow> (bytes \<times> 'v) list" where
  "radix_WalkPrefix r pre = filter (\<lambda>(k, v). prefix pre k) r"

record WildcardTree =
  wt_r :: "(bytes \<times> radixValue) list"
  wt_mt :: MerkleTree

text \<open>The callback of the walk in \<open>NewWildcardTree\<close>, on the state \<open>(tmp, index, data)\<close>.\<close>

definition NewWildcardTree_visit ::
  "(bytes list \<Rightarrow> bytes) \<Rightarrow> (bytes \<times> radixValue) list \<times> int \<times> bytes list
    \<Rightarrow> bytes \<times> bytes list \<Rightarrow> (bytes \<times> radixValue) list \<times> int \<times> bytes list" where
  "NewWildcardTree_visit h st kv =
     (case st of (tmp, index, data) \<Rightarrow>
      case kv of (k, p) \<Rightarrow>
        (tmp @ [(k, \<lparr>rv_payload = p, rv_index = index\<rparr>)], index + 1, data @ [k @ h p]))"

definition NewWildcardTree ::
  "bytes \<Rightarrow> (bytes list \<Rightarrow> bytes) \<Rightarrow> (bytes \<times> bytes list) list \<Rightarrow> WildcardTree" where
  "NewWildcardTree twc h m =
     (let r = radix_NewFromMap m in
      case foldl (NewWildcardTree_visit h) ([], 0, []) (radix_WalkPrefix r []) of
        (tmp, index, data) \<Rightarrow>
          \<lparr>wt_r = radix_NewFromMap tmp,
           wt_mt = NewMerkleTree twc leafPrefix interiorPrefix h data\<rparr>)"

definition Snapshot :: "WildcardTree \<Rightarrow> (bytes \<times> WildcardTree) option" where
  "Snapshot wt =
     (case Mth (wt_mt wt) of
        None \<Rightarrow> None
      | Some (h, mt') \<Rightarrow> Some (h, wt\<lparr>wt_mt := mt'\<rparr>))"

text \<open>\<open>mkKey\<close>: the key of a leaf, everything before its last \<open>hashLen\<close> bytes.\<close>

definition mkKey :: "bytes \<Rightarrow> bytes" where
  "mkKey data =
     (if length data \<ge> hashLen then take (length data - hashLen) data else [])"

text \<open>
  \<open>sort.Search\<close> of the Go library: binary search for the least index in \<open>[0, n)\<close> at which
  \<open>f\<close> holds, \<open>n\<close> when there is none. It calls \<open>f\<close> only on indices in \<open>[0, n)\<close>.
\<close>

function Search_loop :: "(int \<Rightarrow> bool) \<Rightarrow> int \<Rightarrow> int \<Rightarrow> int" where
  "Search_loop f i j =
     (if i < j then
        (let h = (i + j) div 2
         in if \<not> f h then Search_loop f (h + 1) j else Search_loop f i h)
      else i)"
  by pat_completeness auto
termination
  by (relation "measure (\<lambda>(f, i, j). nat (j - i))") auto

declare Search_loop.simps [simp del]

definition Search :: "int \<Rightarrow> (int \<Rightarrow> bool) \<Rightarrow> int" where
  "Search n f = Search_loop f 0 n"

text \<open>Indexing a slice panics out of range.\<close>

definition at :: "'a list \<Rightarrow> int \<Rightarrow> 'a option" where
  "at xs i = (if 0 \<le> i \<and> i < int (length xs) then Some (xs ! nat i) else None)"

text \<open>The callback of the walk in \<open>Get\<close>, on the state \<open>(answer, proof)\<close>.\<close>

definition Get_visit :: "Answer \<times> Proof \<Rightarrow> bytes \<times> radixValue \<Rightarrow> Answer \<times> Proof" where
  "Get_visit st kv =
     (case st of (answer, proof) \<Rightarrow>
      case kv of (subj, v) \<Rightarrow>
        (answer\<lparr>subject := subject answer @ [subj], payload := payload answer @ [rv_payload v]\<rparr>,
         if p_index proof < 0 then proof\<lparr>p_index := rv_index v\<rparr> else proof))"

text \<open>
  \<open>Get\<close>. Every \<open>Ap\<close> may fill cache nodes, so the tree is threaded through the calls and
  returned; a panic of \<open>Ap\<close> or of an index out of range is the result \<open>None\<close>.
  \<open>sort.Search\<close> reads \<open>data[i]\<close> only for \<open>0 \<le> i < len(data)\<close>.
\<close>

definition Get :: "WildcardTree \<Rightarrow> bytes \<Rightarrow> (Answer \<times> Proof \<times> WildcardTree) option" where
  "Get wt key =
     (let mt = wt_mt wt;
          n = int (length (mt_data mt));
          answer0 = \<lparr>subject = [], payload = []\<rparr>;
          proof0 = \<lparr>p_hash = mt_hash mt, p_twc = mt_twc mt, p_index = - 1,
                    p_ll = None, p_rl = None, p_lap = None, p_rap = None\<rparr>
      in
      if n = 0 then Some (answer0, proof0, wt)
      else
        (case foldl Get_visit (answer0, proof0) (radix_WalkPrefix (wt_r wt) key) of
           (answer, proof) \<Rightarrow>
             if p_index proof < 0 then
               (let idx = Search n (\<lambda>i. mkKey (mt_data mt ! nat i) \<ge> key) in
                if idx = n then
                  (case Ap mt (idx - 1) of None \<Rightarrow> None | Some (lap, mt1) \<Rightarrow>
                   case at (mt_data mt1) (idx - 1) of None \<Rightarrow> None | Some ll \<Rightarrow>
                     Some (answer,
                       proof\<lparr>p_index := idx - 1, p_lap := lap, p_ll := Some ll\<rparr>,
                       wt\<lparr>wt_mt := mt1\<rparr>))
                else if idx = 0 then
                  (case Ap mt idx of None \<Rightarrow> None | Some (rap, mt1) \<Rightarrow>
                   case at (mt_data mt1) idx of None \<Rightarrow> None | Some rl \<Rightarrow>
                     Some (answer,
                       proof\<lparr>p_index := idx, p_rap := rap, p_rl := Some rl\<rparr>,
                       wt\<lparr>wt_mt := mt1\<rparr>))
                else
                  (case Ap mt (idx - 1) of None \<Rightarrow> None | Some (lap, mt1) \<Rightarrow>
                   case Ap mt1 idx of None \<Rightarrow> None | Some (rap, mt2) \<Rightarrow>
                   case at (mt_data mt2) (idx - 1) of None \<Rightarrow> None | Some ll \<Rightarrow>
                   case at (mt_data mt2) idx of None \<Rightarrow> None | Some rl \<Rightarrow>
                     Some (answer,
                       proof\<lparr>p_index := idx - 1, p_lap := lap, p_rap := rap,
                         p_ll := Some ll, p_rl := Some rl\<rparr>,
                       wt\<lparr>wt_mt := mt2\<rparr>)))
             else
               (let rindex = p_index proof + int (length (subject answer)) in
                case
                  (if rindex < n then
                     (case Ap mt rindex of None \<Rightarrow> None | Some (rap, mt1) \<Rightarrow>
                      case at (mt_data mt1) rindex of None \<Rightarrow> None | Some rl \<Rightarrow>
                        Some (proof\<lparr>p_rap := rap, p_rl := Some rl\<rparr>, mt1))
                   else Some (proof, mt))
                of None \<Rightarrow> None
                | Some (proof1, mt1) \<Rightarrow>
                   if p_index proof1 > 0 then
                     (case Ap mt1 (p_index proof1 - 1) of None \<Rightarrow> None | Some (lap, mt2) \<Rightarrow>
                      case at (mt_data mt2) (p_index proof1 - 1) of None \<Rightarrow> None | Some ll \<Rightarrow>
                        Some (answer,
                          proof1\<lparr>p_index := p_index proof1 - 1, p_lap := lap, p_ll := Some ll\<rparr>,
                          wt\<lparr>wt_mt := mt2\<rparr>))
                   else Some (answer, proof1, wt\<lparr>wt_mt := mt1\<rparr>))))"

text \<open>\<open>indices\<close>: the inclusive range of leaves a proof and an answer cover.\<close>

definition indices :: "Proof \<Rightarrow> Answer \<Rightarrow> int \<times> int" where
  "indices p a =
     (let lindex = p_index p in
      if lindex \<ge> 0 then
        (let rindex = lindex + int (length (subject a)) - 1;
             rindex = (if p_ll p \<noteq> None then rindex + 1 else rindex);
             rindex = (if p_rl p \<noteq> None then rindex + 1 else rindex)
         in (lindex, rindex))
      else (lindex, 0))"

text \<open>
  \<open>mkLeafData\<close>: the left leaf, one leaf for each subject, the right leaf. The loop over
  the subjects stops with \<open>(nil, false)\<close> at the first pair out of order.
\<close>

function mkLeafData_loop ::
  "Proof \<Rightarrow> Answer \<Rightarrow> nat \<Rightarrow> bytes list option \<Rightarrow> (bytes list option \<times> bool)" where
  "mkLeafData_loop p a i d =
     (if i < length (subject a) then
        (if i > 0 \<and> subject a ! (i - 1) \<ge> subject a ! i then (None, False)
         else mkLeafData_loop p a (i + 1)
                (append_go d (subject a ! i @ p_hash p (payload a ! i))))
      else (d, True))"
  by pat_completeness auto
termination
  by (relation "measure (\<lambda>(p, a, i, d). length (subject a) - i)") auto

declare mkLeafData_loop.simps [simp del]

definition mkLeafData :: "Proof \<Rightarrow> Answer \<Rightarrow> (bytes list option \<times> bool)" where
  "mkLeafData p a =
     (let n = length (subject a) in
      if n \<noteq> length (payload a) then (None, False)
      else
        (case
           (case p_ll p of
              None \<Rightarrow> Some None
            | Some ll \<Rightarrow>
               if n > 0 \<and> mkKey ll > subject a ! 0 then None
               else Some (append_go None ll))
         of None \<Rightarrow> (None, False)
         | Some d \<Rightarrow>
            (case mkLeafData_loop p a 0 d of
               (d', ok) \<Rightarrow>
                 if \<not> ok then (None, False)
                 else
                   (case p_rl p of
                      None \<Rightarrow> (d', True)
                    | Some rl \<Rightarrow>
                       if n > 0 \<and> mkKey rl < subject a ! (n - 1) then (None, False)
                       else (append_go d' rl, True)))))"

text \<open>
  \<open>Verify\<close>. The verifier's Merkle tree is built on no data; \<open>MthFromRangeAp\<close> reads only
  its hash function and its three constants.
\<close>

definition Verify :: "Proof \<Rightarrow> bytes \<Rightarrow> Answer \<Rightarrow> int \<Rightarrow> bytes \<Rightarrow> bool" where
  "Verify p key a sz snapshot =
     (case indices p a of (lindex, rindex) \<Rightarrow>
        if (p_ll p = None \<and> lindex > 0) \<or> (p_rl p = None \<and> rindex + 1 < sz) then False
        else if (case p_ll p of None \<Rightarrow> False | Some ll \<Rightarrow> key < mkKey ll)
              \<or> (case p_rl p of None \<Rightarrow> False | Some rl \<Rightarrow> key > mkKey rl) then False
        else
          (case mkLeafData p a of (data, ok) \<Rightarrow>
             if \<not> ok then False
             else
               (let mt = NewMerkleTree (p_twc p) leafPrefix interiorPrefix (p_hash p) []
                in case MthFromRangeAp mt data lindex sz (p_lap p) (p_rap p) of
                     Inl err \<Rightarrow> False
                   | Inr snapshotp \<Rightarrow> snapshot = snapshotp)))"

section \<open>The specification of the tree head\<close>

text \<open>The split point of a sequence of leaves.\<close>

definition cut :: "'a list \<Rightarrow> nat" where
  "cut data = nat (lpow2s (int (length data)))"

lemma cut_bounds:
  assumes "2 \<le> length data"
  shows "0 < cut data" and "cut data < length data" and "length data \<le> 2 * cut data"
  using split_point [OF assms] by (simp_all add: cut_def)

lemma cut_int: "2 \<le> length data \<Longrightarrow> lpow2s (int (length data)) = int (cut data)"
  using lpow2s_bounds(1) [of "int (length data)"] by (simp add: cut_def)

lemma cut_power: 
  assumes "2 \<le> length data"
  shows "\<exists>e. cut data = 2 ^ e"
proof -
  have "2 \<le> int (length data)" using assms by simp
  from lpow2s_eq [OF this] have "lpow2s (int (length data)) = int (2 ^ (BitLen (nat (int (length data) - 1)) - 1))"
    by simp
  then have "cut data = 2 ^ (BitLen (nat (int (length data) - 1)) - 1)"
    unfolding cut_def by (simp only: nat_int)
  then show ?thesis ..
qed

text \<open>
  The specification's tree shape: the split is at the largest power of two strictly
  less than the number of leaves.
\<close>

definition largest_pow2_below :: "nat \<Rightarrow> nat" where
  "largest_pow2_below n = Max {p. (\<exists>e. p = 2 ^ e) \<and> p < n}"

lemma largest_pow2_below_cut:
  assumes "2 \<le> length data"
  shows "largest_pow2_below (length data) = cut data"
proof -
  let ?S = "{p. (\<exists>e. p = (2::nat) ^ e) \<and> p < length data}"
  have fin: "finite ?S" by simp
  note b = cut_bounds [OF assms]
  from cut_power [OF assms] obtain e where e: "cut data = 2 ^ e" ..
  have mem: "cut data \<in> ?S" using e b(2) by auto
  have "p \<le> cut data" if "p \<in> ?S" for p
  proof -
    from that obtain j where j: "p = 2 ^ j" and lt: "p < length data" by auto
    have "(2::nat) ^ j < 2 ^ Suc e" using lt b(3) unfolding j e by simp
    then have "j < Suc e" by (simp only: power_strict_increasing_iff)
    then have "j \<le> e" by simp
    then have "(2::nat) ^ j \<le> 2 ^ e" by (simp only: power_increasing_iff)
    then show ?thesis unfolding j e .
  qed
  with fin mem show ?thesis unfolding largest_pow2_below_def by (intro Max_eqI) auto
qed

function mth_spec :: "(bytes list \<Rightarrow> bytes) \<Rightarrow> bytes \<Rightarrow> bytes \<Rightarrow> bytes \<Rightarrow> bytes list \<Rightarrow> bytes" where
  "mth_spec H twc leafTag interiorTag data =
     (if length data = 0 then H [twc]
      else if length data = 1 then H [twc, leafTag, data ! 0]
      else
        (let k = largest_pow2_below (length data)
         in H [interiorTag,
               mth_spec H twc leafTag interiorTag (take k data),
               mth_spec H twc leafTag interiorTag (drop k data)]))"
  by pat_completeness auto
termination
proof (relation "measure (\<lambda>(H, twc, leafTag, interiorTag, data). length data)")
  show "wf (measure (\<lambda>(H, twc, leafTag, interiorTag, data). length data))" by simp
next
  fix H :: "bytes list \<Rightarrow> bytes" and twc leafTag interiorTag :: bytes and data :: "bytes list" and k
  assume "length data \<noteq> 0" "length data \<noteq> 1" "k = largest_pow2_below (length data)"
  then have n: "2 \<le> length data" and k': "k = largest_pow2_below (length data)"
    by linarith+
  have k: "k = cut data" unfolding k' using n by (rule largest_pow2_below_cut)
  from cut_bounds [OF n]
  show "((H, twc, leafTag, interiorTag, take k data), (H, twc, leafTag, interiorTag, data))
    \<in> measure (\<lambda>(H, twc, leafTag, interiorTag, data). length data)"
    unfolding k by simp
next
  fix H :: "bytes list \<Rightarrow> bytes" and twc leafTag interiorTag :: bytes and data :: "bytes list" and k
  assume "length data \<noteq> 0" "length data \<noteq> 1" "k = largest_pow2_below (length data)"
  then have n: "2 \<le> length data" and k': "k = largest_pow2_below (length data)"
    by linarith+
  have k: "k = cut data" unfolding k' using n by (rule largest_pow2_below_cut)
  from cut_bounds [OF n]
  show "((H, twc, leafTag, interiorTag, drop k data), (H, twc, leafTag, interiorTag, data))
    \<in> measure (\<lambda>(H, twc, leafTag, interiorTag, data). length data)"
    unfolding k by simp
qed

declare mth_spec.simps [simp del]

text \<open>The digest of a sequence of leaves under the parameters of a tree.\<close>

definition root :: "MerkleTree \<Rightarrow> bytes list \<Rightarrow> bytes" where
  "root mt data =
     mth_spec (mt_hash mt) (mt_twc mt) (mt_leafPrefix mt) (mt_interiorPrefix mt) data"

lemma root_Nil: "root mt [] = mt_hash mt [mt_twc mt]"
  by (simp add: root_def mth_spec.simps)

lemma root_single: "root mt [x] = mt_hash mt [mt_twc mt, mt_leafPrefix mt, x]"
  by (simp add: root_def mth_spec.simps)

lemma root_split:
  assumes "2 \<le> length data"
  shows "root mt data =
    mt_hash mt [mt_interiorPrefix mt, root mt (take (cut data) data), root mt (drop (cut data) data)]"
proof -
  have "length data \<noteq> 0" "length data \<noteq> 1" using assms by auto
  then show ?thesis
    unfolding root_def
    by (subst mth_spec.simps) (simp add: largest_pow2_below_cut [OF assms] Let_def)
qed

lemma root_mt_cache_update [simp]: "root (mt\<lparr>mt_cache := c\<rparr>) = root mt"
  by (rule ext) (simp add: root_def)

text \<open>
  The cache as \<open>Mth\<close> leaves it: every node of the tree holds its digest. \<open>rt\<close> is the
  digest function of the tree.
\<close>

function cache_of :: "(bytes list \<Rightarrow> bytes) \<Rightarrow> bytes list \<Rightarrow> hashCache" where
  "cache_of rt data =
     (if length data \<le> 1 then Cache (Some (rt data)) NilCache NilCache
      else Cache (Some (rt data))
             (cache_of rt (take (cut data) data))
             (cache_of rt (drop (cut data) data)))"
  by pat_completeness auto
termination
proof (relation "measure (\<lambda>(rt, data). length data)")
  show "wf (measure (\<lambda>(rt, data). length data))" by simp
next
  fix rt :: "bytes list \<Rightarrow> bytes" and data :: "bytes list"
  assume "\<not> length data \<le> 1"
  then have "2 \<le> length data" by linarith
  from cut_bounds [OF this]
  show "((rt, take (cut data) data), (rt, data)) \<in> measure (\<lambda>(rt, data). length data)"
    by simp
next
  fix rt :: "bytes list \<Rightarrow> bytes" and data :: "bytes list"
  assume "\<not> length data \<le> 1"
  then have "2 \<le> length data" by linarith
  from cut_bounds [OF this]
  show "((rt, drop (cut data) data), (rt, data)) \<in> measure (\<lambda>(rt, data). length data)"
    by simp
qed

declare cache_of.simps [simp del]

definition full_cache :: "MerkleTree \<Rightarrow> bytes list \<Rightarrow> hashCache" where
  "full_cache mt data = cache_of (root mt) data"

lemma full_cache_mt_cache_update [simp]: "full_cache (mt\<lparr>mt_cache := c\<rparr>) = full_cache mt"
  by (rule ext) (simp add: full_cache_def)

text \<open>A tree is warm when \<open>Mth\<close> has filled its cache.\<close>

definition warm :: "MerkleTree \<Rightarrow> bool" where
  "warm mt = (mt_cache mt = full_cache mt (mt_data mt))"

lemma full_cache_leaf:
  "length data \<le> 1 \<Longrightarrow> full_cache mt data = Cache (Some (root mt data)) NilCache NilCache"
  unfolding full_cache_def by (subst cache_of.simps) simp

lemma full_cache_split:
  assumes "2 \<le> length data"
  shows "full_cache mt data =
    Cache (Some (root mt data)) (full_cache mt (take (cut data) data))
      (full_cache mt (drop (cut data) data))"
proof -
  have "\<not> length data \<le> 1" using assms by simp
  then show ?thesis unfolding full_cache_def by (subst cache_of.simps) (simp only: if_False)
qed

lemma mth_fresh: "mth mt data new_hashCache = Some (root mt data, full_cache mt data)"
proof (induction data rule: length_induct)
  case (1 data)
  consider "length data = 0" | "length data = 1" | "2 \<le> length data" by linarith
  then show ?case
  proof cases
    case 1
    then show ?thesis
      by (simp add: new_hashCache_def root_Nil full_cache_leaf mth.simps(3) Let_def)
  next
    case 2
    then obtain x where x: "data = [x]" by (cases data) auto
    show ?thesis unfolding x
      by (simp add: new_hashCache_def root_single full_cache_leaf mth.simps(3) Let_def)
  next
    case 3
    note b = cut_bounds [OF 3]
    have l: "mth mt (take (cut data) data) new_hashCache
        = Some (root mt (take (cut data) data), full_cache mt (take (cut data) data))"
      using 1 b by simp
    have r: "mth mt (drop (cut data) data) new_hashCache
        = Some (root mt (drop (cut data) data), full_cache mt (drop (cut data) data))"
      using 1 b by simp
    have ne: "length data \<noteq> 0" "length data \<noteq> 1" "\<not> length data \<le> 1" using 3 by auto
    have "mth mt data (Cache None NilCache NilCache) = Some (root mt data, full_cache mt data)"
      apply (subst mth.simps(3))
      apply (simp only: ne if_False Let_def cut_def [symmetric] l r option.case prod.case)
      apply (simp only: full_cache_split [OF 3] root_split [OF 3, symmetric])
      done
    then show ?thesis by (simp only: new_hashCache_def)
  qed
qed

lemma full_cache_this: "\<exists>l r. full_cache mt data = Cache (Some (root mt data)) l r"
  unfolding full_cache_def by (subst cache_of.simps) auto

lemma mth_warm: "mth mt data (full_cache mt data) = Some (root mt data, full_cache mt data)"
proof -
  from full_cache_this obtain l r where "full_cache mt data = Cache (Some (root mt data)) l r"
    by blast
  then show ?thesis by simp
qed

lemma NewMerkleTree_sel [simp]:
  "mt_twc (NewMerkleTree twc lp ip H data) = twc"
  "mt_leafPrefix (NewMerkleTree twc lp ip H data) = lp"
  "mt_interiorPrefix (NewMerkleTree twc lp ip H data) = ip"
  "mt_hash (NewMerkleTree twc lp ip H data) = H"
  "mt_data (NewMerkleTree twc lp ip H data) = data"
  "mt_cache (NewMerkleTree twc lp ip H data) = new_hashCache"
  by (simp_all add: NewMerkleTree_def)

lemma Mth_NewMerkleTree:
  "Mth (NewMerkleTree twc lp ip H data) =
     Some (mth_spec H twc lp ip data,
           (NewMerkleTree twc lp ip H data)\<lparr>mt_cache := full_cache (NewMerkleTree twc lp ip H data) data\<rparr>)"
proof -
  define mt where "mt = NewMerkleTree twc lp ip H data"
  have f: "mt_data mt = data" "mt_cache mt = new_hashCache"
    and r: "root mt data = mth_spec H twc lp ip data"
    by (simp_all add: mt_def root_def)
  have "Mth mt = Some (root mt data, mt\<lparr>mt_cache := full_cache mt data\<rparr>)"
    unfolding Mth_def f by (simp add: mth_fresh)
  then show ?thesis unfolding r unfolding mt_def .
qed

lemma Mth_warm:
  assumes "warm mt"
  shows "Mth mt = Some (root mt (mt_data mt), mt)"
proof -
  have "mth mt (mt_data mt) (mt_cache mt) = Some (root mt (mt_data mt), mt_cache mt)"
    using assms mth_warm [of mt "mt_data mt"] unfolding warm_def by simp
  then show ?thesis unfolding Mth_def by simp
qed

lemma warm_after_Mth:
  "warm ((NewMerkleTree twc lp ip H data)\<lparr>mt_cache := full_cache (NewMerkleTree twc lp ip H data) data\<rparr>)"
  unfolding warm_def by simp

text \<open>
  C5. \<open>Mth\<close> computes the left-complete recursive root. On the tree that \<open>NewMerkleTree\<close>
  builds, \<open>Mth\<close> returns the digest \<open>mth_spec\<close> defines: \<open>H(twc)\<close> for no leaf,
  \<open>H(twc, leafTag, data[0])\<close> for one leaf, and for more leaves
  \<open>H(interiorTag, left, right)\<close>, where the split is at the largest power of two strictly
  less than the number of leaves and both halves follow the same definition. The cache
  does not change the digest: a second call returns it again.
\<close>

theorem Mth_is_left_complete_root:
  "\<exists>mt'. Mth (NewMerkleTree twc lp ip H data) = Some (mth_spec H twc lp ip data, mt')
     \<and> Mth mt' = Some (mth_spec H twc lp ip data, mt')"
proof -
  define mt where "mt = NewMerkleTree twc lp ip H data"
  define mt' where "mt' = mt\<lparr>mt_cache := full_cache mt data\<rparr>"
  have first: "Mth mt = Some (mth_spec H twc lp ip data, mt')"
    unfolding mt_def mt'_def by (rule Mth_NewMerkleTree)
  have w: "warm mt'" unfolding mt'_def mt_def by (rule warm_after_Mth)
  have "root mt' (mt_data mt') = mth_spec H twc lp ip data"
    unfolding mt'_def mt_def by (simp add: root_def)
  with Mth_warm [OF w] have "Mth mt' = Some (mth_spec H twc lp ip data, mt')" by simp
  with first show ?thesis unfolding mt_def by blast
qed

section \<open>The errors of MthFromRangeAp\<close>

text \<open>
  The four malformed-proof cases as the specification enumerates them, the last two for
  trees of more than one leaf.
\<close>

definition spec_malformed ::
  "bytes list option \<Rightarrow> int \<Rightarrow> int \<Rightarrow> bytes list option \<Rightarrow> bytes list option \<Rightarrow> bool" where
  "spec_malformed data i n lAp rAp =
     ((n = 0 \<and> \<not> (data = None \<and> lAp = None \<and> rAp = None \<and> i < 0))
    \<or> (n = 1 \<and> \<not> (len data = 1 \<and> i = 0 \<and> lAp = None \<and> rAp = None))
    \<or> (n > 1 \<and> i + len data > n)
    \<or> (n > 1 \<and> len data = 1 \<and> 0 < i \<and> i < n - 1))"

text \<open>
  C6, as stated, fails in two ways. The two special cases of the code are \<open>n = 0\<close> and
  \<open>n = 1\<close>, and every other \<open>n\<close>, a negative one too, reaches the check
  \<open>i + len(data) > n\<close>: with \<open>n = -1\<close>, \<open>i = 0\<close> and no data the call returns
  "tree too small", and none of the four cases of the specification holds. And the sum
  \<open>i + len(data)\<close> is a 64-bit sum: with \<open>i = 2\<^sup>6\<^sup>3 - 1\<close>, one leaf and \<open>n = 5\<close> it wraps
  to \<open>-2\<^sup>6\<^sup>3\<close>, the check passes and the call returns a digest, where the third case of
  the specification holds.
\<close>

theorem MthFromRangeAp_error_counterexample:
  "MthFromRangeAp (NewMerkleTree [] [0] [1] concat []) None 0 (- 1) None None = Inl TreeTooSmall
   \<and> \<not> spec_malformed None 0 (- 1) None None
   \<and> MthFromRangeAp (NewMerkleTree [255] [0] [1] concat []) (Some [[7]])
         9223372036854775807 5 None None = Inr [1, 255, 0, 7]
   \<and> spec_malformed (Some [[7]]) 9223372036854775807 5 None None"
  by code_simp

text \<open>
  C6, amended. For 64-bit \<open>i\<close> and \<open>n\<close> whose sum \<open>i + len(data)\<close> does not exceed the
  largest 64-bit integer, \<open>MthFromRangeAp\<close> returns an error exactly when the tree is
  empty and the other arguments are not all absent with a negative index, or the tree is a
  single leaf and the arguments are not one leaf at index 0 with no paths, or \<open>n\<close> is
  neither 0 nor 1 and \<open>i + len(data) > n\<close>, or \<open>n > 1\<close> and the range is a single leaf
  strictly inside the tree. In every other case it returns a digest: \<open>jp\<close> and \<open>dp\<close> are
  total, their slices stay in range (\<open>split\<close> returns a cut between 0 and the number of
  leaves it is given) and their recursion ends on every input. The statement is about
  which calls are errors, not about the digest a call without an error returns.
\<close>

theorem MthFromRangeAp_error_iff:
  assumes "- (2 ^ 63) \<le> i" and "- (2 ^ 63) \<le> n" and "n < 2 ^ 63"
    and "i + len data < 2 ^ 63"
  shows "((\<exists>e. MthFromRangeAp mt data i n lAp rAp = Inl e) \<longleftrightarrow>
      (n = 0 \<and> \<not> (data = None \<and> lAp = None \<and> rAp = None \<and> i < 0))
    \<or> (n = 1 \<and> \<not> (len data = 1 \<and> i = 0 \<and> lAp = None \<and> rAp = None))
    \<or> (n \<noteq> 0 \<and> n \<noteq> 1 \<and> i + len data > n)
    \<or> (n > 1 \<and> len data = 1 \<and> 0 < i \<and> i < n - 1))
   \<and> ((\<exists>h. MthFromRangeAp mt data i n lAp rAp = Inr h) \<longleftrightarrow>
      \<not> ((n = 0 \<and> \<not> (data = None \<and> lAp = None \<and> rAp = None \<and> i < 0))
    \<or> (n = 1 \<and> \<not> (len data = 1 \<and> i = 0 \<and> lAp = None \<and> rAp = None))
    \<or> (n \<noteq> 0 \<and> n \<noteq> 1 \<and> i + len data > n)
    \<or> (n > 1 \<and> len data = 1 \<and> 0 < i \<and> i < n - 1)))"
proof -
  have l: "0 \<le> len data" by (cases data) simp_all
  have w1: "wrap64 (i + len data) = i + len data"
    using assms(1,4) l by (intro wrap64_id) simp_all
  have w2: "wrap64 (n - 1) = n - 1" if "1 \<le> n"
    using that assms(3) by (intro wrap64_id) simp_all
  show ?thesis
  proof (cases "1 \<le> n")
    case True
    show ?thesis unfolding MthFromRangeAp_def w1 w2 [OF True] by auto
  next
    case False
    then have "n \<noteq> 1" "\<not> n > 1" "n = 0 \<or> (0 < i \<longrightarrow> i + len data > n)"
      using l by auto
    then show ?thesis unfolding MthFromRangeAp_def w1 by auto
  qed
qed

theorem MthFromRangeAp_error_iff_witness:
  "- (2 ^ 63) \<le> (1 :: int) \<and> - (2 ^ 63) \<le> (3 :: int) \<and> (3 :: int) < 2 ^ 63
   \<and> 1 + len (Some [[7 :: byte]]) < 2 ^ 63
   \<and> (\<exists>e. MthFromRangeAp (NewMerkleTree [] [0] [1] concat []) (Some [[7]]) 1 3 None None = Inl e)
   \<and> (\<exists>h. MthFromRangeAp (NewMerkleTree [] [0] [1] concat []) (Some [[7], [8]]) 1 3 None None
          = Inr h)"
proof -
  have a: "- (2 ^ 63) \<le> (1 :: int)" "- (2 ^ 63) \<le> (3 :: int)" "(3 :: int) < 2 ^ 63"
    "1 + len (Some [[7 :: byte]]) < 2 ^ 63" "1 + len (Some [[7 :: byte], [8]]) < 2 ^ 63"
    by simp_all
  from MthFromRangeAp_error_iff [OF a(1) a(2) a(3) a(4), of "NewMerkleTree [] [0] [1] concat []" None None]
    MthFromRangeAp_error_iff [OF a(1) a(2) a(3) a(5), of "NewMerkleTree [] [0] [1] concat []" None None]
    a
  show ?thesis by simp
qed

section \<open>Audit paths on a warm cache\<close>

text \<open>The audit path of leaf \<open>m\<close> as a list, over the digest function \<open>rt\<close> of the tree.\<close>

function path_of :: "(bytes list \<Rightarrow> bytes) \<Rightarrow> nat \<Rightarrow> bytes list \<Rightarrow> bytes list" where
  "path_of rt m data =
     (if length data \<le> 1 then []
      else if m < cut data then
        path_of rt m (take (cut data) data) @ [rt (drop (cut data) data)]
      else
        path_of rt (m - cut data) (drop (cut data) data) @ [rt (take (cut data) data)])"
  by pat_completeness auto
termination
proof (relation "measure (\<lambda>(rt, m, data). length data)")
  show "wf (measure (\<lambda>(rt, m, data). length data))" by simp
next
  fix rt :: "bytes list \<Rightarrow> bytes" and m :: nat and data :: "bytes list"
  assume "\<not> length data \<le> 1"
  then have "2 \<le> length data" by linarith
  from cut_bounds [OF this]
  show "((rt, m, take (cut data) data), (rt, m, data)) \<in> measure (\<lambda>(rt, m, data). length data)"
    by simp
next
  fix rt :: "bytes list \<Rightarrow> bytes" and m :: nat and data :: "bytes list"
  assume "\<not> length data \<le> 1"
  then have "2 \<le> length data" by linarith
  from cut_bounds [OF this]
  show "((rt, m - cut data, drop (cut data) data), (rt, m, data))
    \<in> measure (\<lambda>(rt, m, data). length data)"
    by simp
qed

declare path_of.simps [simp del]

definition path_to :: "MerkleTree \<Rightarrow> nat \<Rightarrow> bytes list \<Rightarrow> bytes list" where
  "path_to mt m data = path_of (root mt) m data"

lemma path_to_mt_cache_update [simp]: "path_to (mt\<lparr>mt_cache := c\<rparr>) = path_to mt"
  by (rule ext)+ (simp add: path_to_def)

lemma path_to_leaf: "length data \<le> 1 \<Longrightarrow> path_to mt m data = []"
  unfolding path_to_def by (subst path_of.simps) simp

lemma path_to_left:
  assumes "2 \<le> length data" and "m < cut data"
  shows "path_to mt m data = path_to mt m (take (cut data) data) @ [root mt (drop (cut data) data)]"
proof -
  have "\<not> length data \<le> 1" using assms(1) by simp
  then show ?thesis
    unfolding path_to_def by (subst path_of.simps) (simp only: if_False assms(2) if_True)
qed

lemma path_to_right:
  assumes "2 \<le> length data" and "\<not> m < cut data"
  shows "path_to mt m data =
    path_to mt (m - cut data) (drop (cut data) data) @ [root mt (take (cut data) data)]"
proof -
  have "\<not> length data \<le> 1" using assms(1) by simp
  then show ?thesis
    unfolding path_to_def by (subst path_of.simps) (simp only: if_False assms(2))
qed

text \<open>A path is the nil slice exactly when it has no entry.\<close>

definition slice_of :: "'a list \<Rightarrow> 'a list option" where
  "slice_of xs = (if xs = [] then None else Some xs)"

lemma slice_of_Nil [simp]: "slice_of [] = None"
  by (simp add: slice_of_def)

lemma slice_of_snoc [simp]: "slice_of (xs @ [x]) = Some (xs @ [x])"
  by (simp add: slice_of_def)

lemma append_go_slice_of [simp]: "append_go (slice_of xs) x = Some (xs @ [x])"
  by (simp add: slice_of_def)

lemma head_slice_of_Cons [simp]: "head (slice_of (x # xs)) = (x, slice_of xs)"
  by (cases xs) (simp_all add: slice_of_def)

lemma ap_warm:
  "ap mt (int m) data (full_cache mt data) = Some (slice_of (path_to mt m data), full_cache mt data)"
proof (induction data arbitrary: m rule: length_induct)
  case (1 data)
  show ?case
  proof (cases "length data \<le> 1")
    case True
    then show ?thesis
      by (subst ap.simps) (simp add: path_to_leaf)
  next
    case False
    then have n: "2 \<le> length data" by simp
    note b = cut_bounds [OF n]
    let ?L = "take (cut data) data" and ?R = "drop (cut data) data"
    have fc: "full_cache mt data = Cache (Some (root mt data)) (full_cache mt ?L) (full_cache mt ?R)"
      by (rule full_cache_split [OF n])
    have k: "lpow2s (int (length data)) = int (cut data)" by (rule cut_int [OF n])
    have IHL: "ap mt (int m') ?L (full_cache mt ?L) = Some (slice_of (path_to mt m' ?L), full_cache mt ?L)" for m'
      using 1 b by simp
    have IHR: "ap mt (int m') ?R (full_cache mt ?R) = Some (slice_of (path_to mt m' ?R), full_cache mt ?R)" for m'
      using 1 b by simp
    show ?thesis
    proof (cases "m < cut data")
      case True
      have "ap mt (int m) data (Cache (Some (root mt data)) (full_cache mt ?L) (full_cache mt ?R))
        = Some (Some (path_to mt m ?L @ [root mt ?R]),
                Cache (Some (root mt data)) (full_cache mt ?L) (full_cache mt ?R))"
        apply (subst ap.simps)
        using True False by (simp add: k Let_def IHL mth_warm)
      then show ?thesis
        unfolding fc [symmetric] path_to_left [OF n True, symmetric]
        by (simp add: path_to_left [OF n True])
    next
      case F: False
      then have mk: "int m - int (cut data) = int (m - cut data)" by simp
      have "ap mt (int m) data (Cache (Some (root mt data)) (full_cache mt ?L) (full_cache mt ?R))
        = Some (Some (path_to mt (m - cut data) ?R @ [root mt ?L]),
                Cache (Some (root mt data)) (full_cache mt ?L) (full_cache mt ?R))"
        apply (subst ap.simps)
        using F False by (simp add: k Let_def mk IHR mth_warm del: of_nat_diff)
      then show ?thesis
        unfolding fc [symmetric]
        by (simp add: path_to_right [OF n F])
    qed
  qed
qed

lemma Ap_warm:
  assumes "warm mt"
  shows "Ap mt (int m) = Some (slice_of (path_to mt m (mt_data mt)), mt)"
proof -
  have "mt_cache mt = full_cache mt (mt_data mt)" using assms by (simp add: warm_def)
  then have "ap mt (int m) (mt_data mt) (mt_cache mt)
      = Some (slice_of (path_to mt m (mt_data mt)), mt_cache mt)"
    using ap_warm [of mt m "mt_data mt"] by simp
  then show ?thesis unfolding Ap_def by simp
qed

section \<open>The loop of MthFromAp\<close>

lemma smod_2_nat: "int a smod 2 = int (a mod 2)"
proof (cases "a = 0")
  case True
  then show ?thesis by (simp add: signed_modulo_int_def)
next
  case False
  then have "sgn (int a) = 1" by simp
  then show ?thesis by (simp add: signed_modulo_int_def zmod_int)
qed

lemma sdiv_2_nat: "int a sdiv 2 = int (a div 2)"
proof (cases "a = 0")
  case True
  then show ?thesis by (simp add: signed_divide_int_def)
next
  case False
  then have "sgn (int a) = 1" by simp
  then show ?thesis by (simp add: signed_divide_int_def zdiv_int)
qed

lemma loop_done: "MthFromAp_loop mt r idx 0 p = r"
  by (subst MthFromAp_loop.simps) simp

lemma loop_odd:
  assumes "0 < l" and "idx mod 2 = 1"
  shows "MthFromAp_loop mt r (int idx) (int l) (slice_of (x # xs))
    = MthFromAp_loop mt (mt_hash mt [mt_interiorPrefix mt, x, r])
        (int (idx div 2)) (int (l div 2)) (slice_of xs)"
proof -
  have c: "int l > 0" "int idx smod 2 = 1"
    using assms by (simp_all add: smod_2_nat)
  show ?thesis
    by (subst MthFromAp_loop.simps)
      (simp only: c if_True head_slice_of_Cons prod.case sdiv_2_nat simp_thms)
qed

lemma loop_even_lt:
  assumes "idx < l" and "idx mod 2 = 0"
  shows "MthFromAp_loop mt r (int idx) (int l) (slice_of (x # xs))
    = MthFromAp_loop mt (mt_hash mt [mt_interiorPrefix mt, r, x])
        (int (idx div 2)) (int (l div 2)) (slice_of xs)"
proof -
  have c: "int l > 0" "\<not> int idx smod 2 = 1" "int idx < int l"
    using assms by (simp_all add: smod_2_nat)
  show ?thesis
    by (subst MthFromAp_loop.simps)
      (simp only: c if_True if_False head_slice_of_Cons prod.case sdiv_2_nat)
qed

lemma loop_even_eq:
  assumes "idx mod 2 = 0"
  shows "MthFromAp_loop mt r (int idx) (int idx) p
    = MthFromAp_loop mt r (int (idx div 2)) (int (idx div 2)) p"
proof (cases "idx = 0")
  case True
  then show ?thesis by simp
next
  case False
  have c: "int idx > 0" "\<not> int idx smod 2 = 1" "\<not> int idx < int idx"
    using assms False by (simp_all add: smod_2_nat)
  show ?thesis
    by (subst MthFromAp_loop.simps)
      (simp only: c if_True if_False sdiv_2_nat)
qed

lemma loop_skip:
  "MthFromAp_loop mt r (int (b * 2 ^ d)) (int (b * 2 ^ d)) p = MthFromAp_loop mt r (int b) (int b) p"
proof (induction d)
  case 0
  show ?case by simp
next
  case (Suc d)
  have e: "(b * 2 ^ Suc d) mod 2 = 0" "(b * 2 ^ Suc d) div 2 = b * 2 ^ d" by simp_all
  show ?case
    using loop_even_eq [OF e(1), of mt r p] unfolding e(2) using Suc by (simp only:)
qed


lemma div_block:
  fixes a q c :: nat
  assumes "c < q"
  shows "(a * q + c) div q = a"
  using assms by simp

lemma loop_subtree:
  assumes "m < length data" and "length data \<le> 2 ^ h"
    and "b * 2 ^ h + length data \<le> Suc Lst"
    and "length data = 2 ^ h \<or> Suc Lst = b * 2 ^ h + length data"
  shows "MthFromAp_loop mt (mt_hash mt [mt_twc mt, mt_leafPrefix mt, data ! m])
           (int (b * 2 ^ h + m)) (int Lst) (slice_of (path_to mt m data @ rest))
       = MthFromAp_loop mt (root mt data) (int b) (int (Lst div 2 ^ h)) (slice_of rest)"
  using assms
proof (induction data arbitrary: m h b rest rule: length_induct)
  case (1 data)
  note prems = "1.prems"
  show ?case
  proof (cases "length data \<le> 1")
    case True
    with prems(1) have len: "length data = 1" and m: "m = 0" by simp_all
    then obtain x where x: "data = [x]" by (cases data) auto
    have p: "path_to mt m data = []" using True by (rule path_to_leaf)
    show ?thesis
    proof (cases "h = 0")
      case True
      then show ?thesis by (simp add: path_to_leaf x m root_single)
    next
      case False
      then have "(2::nat) ^ 0 < 2 ^ h" by (simp only: power_strict_increasing_iff)
      then have "(1::nat) < 2 ^ h" by simp
      with prems(4) len have L: "Lst = b * 2 ^ h" by simp
      have "Lst div 2 ^ h = b" unfolding L by simp
      then show ?thesis
        using loop_skip [of mt "root mt data" b h "slice_of rest"]
        by (simp add: path_to_leaf x m root_single L)
    qed
  next
    case False
    then have n: "2 \<le> length data" by simp
    note c = cut_bounds [OF n]
    from cut_power [OF n] obtain j where j: "cut data = 2 ^ j" ..
    let ?k = "cut data"
    let ?L = "take ?k data" and ?R = "drop ?k data"
    have jh: "j < h"
    proof -
      have "(2::nat) ^ j < 2 ^ h" using c(2) prems(2) unfolding j by linarith
      then show ?thesis by (simp only: power_strict_increasing_iff)
    qed
    then obtain d where d: "h = Suc (j + d)" using less_imp_Suc_add by blast
    have pw: "(2::nat) ^ h = 2 * (2 ^ d * 2 ^ j)" unfolding d by (simp add: power_add)
    have B: "b * 2 ^ h = (2 * (b * 2 ^ d)) * 2 ^ j" unfolding pw by simp
    text \<open>the levels above the node, where it has no sibling\<close>
    have above: "MthFromAp_loop mt r (int (b * 2 ^ d)) (int (Lst div 2 ^ Suc j)) p
        = MthFromAp_loop mt r (int b) (int (Lst div 2 ^ h)) p" for r p
    proof (cases "d = 0")
      case True
      then show ?thesis unfolding d by simp
    next
      case False
      then have "(2::nat) ^ Suc j < 2 ^ h" unfolding d by simp
      moreover have "length data \<le> 2 ^ Suc j" using c(3) unfolding j by simp
      ultimately have "length data \<noteq> 2 ^ h" by linarith
      with prems(4) have L: "Lst = b * 2 ^ h + (length data - 1)" using n by linarith
      have lt1: "length data - 1 < 2 ^ h" using prems(2) n by linarith
      have lt2: "length data - 1 < 2 ^ Suc j" using c(3) n unfolding j by simp
      have "b * 2 ^ h = (b * 2 ^ d) * 2 ^ Suc j" unfolding d by (simp add: power_add)
      then have "Lst = (b * 2 ^ d) * 2 ^ Suc j + (length data - 1)"
        using L by (simp only:)
      then have 1: "Lst div 2 ^ Suc j = b * 2 ^ d"
        using div_block [OF lt2, of "b * 2 ^ d"] by (simp only:)
      have 2: "Lst div 2 ^ h = b"
        unfolding L by (rule div_block [OF lt1])
      show ?thesis unfolding 1 2 by (rule loop_skip)
    qed
    have div2: "Lst div 2 ^ j div 2 = Lst div 2 ^ Suc j"
    proof -
      have "(2::nat) ^ Suc j = 2 ^ j * 2" by simp
      then have "Lst div 2 ^ Suc j = Lst div (2 ^ j * 2)" by (simp only:)
      also have "\<dots> = Lst div 2 ^ j div 2" by (rule div_mult2_eq)
      finally show ?thesis by (rule sym)
    qed
    show ?thesis
    proof (cases "m < ?k")
      case True
      have IH: "MthFromAp_loop mt (mt_hash mt [mt_twc mt, mt_leafPrefix mt, ?L ! m])
           (int ((2 * (b * 2 ^ d)) * 2 ^ j + m)) (int Lst)
           (slice_of (path_to mt m ?L @ (root mt ?R # rest)))
       = MthFromAp_loop mt (root mt ?L) (int (2 * (b * 2 ^ d))) (int (Lst div 2 ^ j))
           (slice_of (root mt ?R # rest))"
      proof (rule "1.IH" [rule_format])
        show "length ?L < length data" using c by simp
        show "m < length ?L" using True c by simp
        show "length ?L \<le> 2 ^ j" using c j by simp
        show "2 * (b * 2 ^ d) * 2 ^ j + length ?L \<le> Suc Lst"
          using prems(3) c unfolding B [symmetric] by simp
        show "length ?L = 2 ^ j \<or> Suc Lst = 2 * (b * 2 ^ d) * 2 ^ j + length ?L"
          using c j by simp
      qed
      have lt: "2 * (b * 2 ^ d) < Lst div 2 ^ j"
      proof -
        have "(2 * (b * 2 ^ d) + 1) * 2 ^ j \<le> Lst"
          using prems(3) c(2) unfolding B j by (simp add: algebra_simps)
        then have "2 * (b * 2 ^ d) + 1 \<le> Lst div 2 ^ j"
          by (simp add: less_eq_div_iff_mult_less_eq)
        then show ?thesis by simp
      qed
      have step: "MthFromAp_loop mt (root mt ?L) (int (2 * (b * 2 ^ d))) (int (Lst div 2 ^ j))
           (slice_of (root mt ?R # rest))
        = MthFromAp_loop mt (root mt data) (int (b * 2 ^ d)) (int (Lst div 2 ^ Suc j)) (slice_of rest)"
        using loop_even_lt [OF lt, of mt "root mt ?L" "root mt ?R" rest]
        by (simp add: root_split [OF n] div2 del: power_Suc)
      have "MthFromAp_loop mt (mt_hash mt [mt_twc mt, mt_leafPrefix mt, data ! m])
           (int (b * 2 ^ h + m)) (int Lst) (slice_of (path_to mt m data @ rest))
        = MthFromAp_loop mt (mt_hash mt [mt_twc mt, mt_leafPrefix mt, ?L ! m])
           (int ((2 * (b * 2 ^ d)) * 2 ^ j + m)) (int Lst)
           (slice_of (path_to mt m ?L @ (root mt ?R # rest)))"
        using True by (simp add: path_to_left [OF n True] B)
      also note IH
      also note step
      also note above
      finally show ?thesis .
    next
      case F: False
      let ?m = "m - ?k"
      have idx: "b * 2 ^ h + m = (2 * (b * 2 ^ d) + 1) * 2 ^ j + ?m"
        using F unfolding B j by (simp add: algebra_simps)
      have IH: "MthFromAp_loop mt (mt_hash mt [mt_twc mt, mt_leafPrefix mt, ?R ! ?m])
           (int ((2 * (b * 2 ^ d) + 1) * 2 ^ j + ?m)) (int Lst)
           (slice_of (path_to mt ?m ?R @ (root mt ?L # rest)))
       = MthFromAp_loop mt (root mt ?R) (int (2 * (b * 2 ^ d) + 1)) (int (Lst div 2 ^ j))
           (slice_of (root mt ?L # rest))"
      proof (rule "1.IH" [rule_format])
        show "length ?R < length data" using c by simp
        show "?m < length ?R" using F prems(1) by simp
        show "length ?R \<le> 2 ^ j" using c unfolding j by simp
        have e: "(2 * (b * 2 ^ d) + 1) * 2 ^ j + length ?R = b * 2 ^ h + length data"
          using c unfolding B j by (simp add: algebra_simps)
        show "(2 * (b * 2 ^ d) + 1) * 2 ^ j + length ?R \<le> Suc Lst"
          unfolding e by (rule prems(3))
        show "length ?R = 2 ^ j \<or> Suc Lst = (2 * (b * 2 ^ d) + 1) * 2 ^ j + length ?R"
        proof (cases "length data = 2 ^ h")
          case True
          have "(2::nat) ^ h \<le> 2 ^ Suc j" using c(3) True unfolding j by simp
          then have "h \<le> Suc j" by (simp only: power_increasing_iff)
          with jh have "h = Suc j" by simp
          then have "length ?R = 2 ^ j" using True unfolding j by simp
          then show ?thesis ..
        next
          case False
          with prems(4) show ?thesis unfolding e by simp
        qed
      qed
      have pos: "0 < Lst div 2 ^ j"
      proof -
        have "1 * 2 ^ j \<le> Lst"
          using prems(3) c(2) unfolding B j by (simp add: algebra_simps)
        then have "1 \<le> Lst div 2 ^ j"
          by (simp only: less_eq_div_iff_mult_less_eq zero_less_power zero_less_numeral)
        then show ?thesis by simp
      qed
      have odd: "(2 * (b * 2 ^ d) + 1) mod 2 = 1" "(2 * (b * 2 ^ d) + 1) div 2 = b * 2 ^ d"
        by simp_all
      have step: "MthFromAp_loop mt (root mt ?R) (int (2 * (b * 2 ^ d) + 1)) (int (Lst div 2 ^ j))
           (slice_of (root mt ?L # rest))
        = MthFromAp_loop mt (root mt data) (int (b * 2 ^ d)) (int (Lst div 2 ^ Suc j)) (slice_of rest)"
        using loop_odd [OF pos odd(1), of mt "root mt ?R" "root mt ?L" rest]
        unfolding odd(2) div2 root_split [OF n, symmetric] .
      have "MthFromAp_loop mt (mt_hash mt [mt_twc mt, mt_leafPrefix mt, data ! m])
           (int (b * 2 ^ h + m)) (int Lst) (slice_of (path_to mt m data @ rest))
        = MthFromAp_loop mt (mt_hash mt [mt_twc mt, mt_leafPrefix mt, ?R ! ?m])
           (int ((2 * (b * 2 ^ d) + 1) * 2 ^ j + ?m)) (int Lst)
           (slice_of (path_to mt ?m ?R @ (root mt ?L # rest)))"
        using F prems(1) c unfolding idx by (simp add: path_to_right [OF n F])
      also note IH
      also note step
      also note above
      finally show ?thesis .
    qed
  qed
qed

lemma MthFromAp_path_to:
  assumes "i < length data"
  shows "MthFromAp mt (data ! i) (int i) (int (length data)) (slice_of (path_to mt i data))
    = root mt data"
proof -
  let ?n = "length data"
  have n: "?n \<le> 2 ^ ?n" by simp
  have a: "0 * 2 ^ ?n + ?n \<le> Suc (?n - 1)" using assms by simp
  have "Suc (?n - 1) = 0 * 2 ^ ?n + ?n" using assms by (cases data) simp_all
  then have b: "?n = 2 ^ ?n \<or> Suc (?n - 1) = 0 * 2 ^ ?n + ?n" ..
  have z: "(?n - 1) div 2 ^ ?n = 0"
  proof -
    have "?n - 1 < 2 ^ ?n" using n assms by linarith
    then show ?thesis by simp
  qed
  have "MthFromAp_loop mt (mt_hash mt [mt_twc mt, mt_leafPrefix mt, data ! i])
           (int (0 * 2 ^ ?n + i)) (int (?n - 1)) (slice_of (path_to mt i data @ []))
       = MthFromAp_loop mt (root mt data) (int 0) (int ((?n - 1) div 2 ^ ?n)) (slice_of [])"
    using assms n a b by (rule loop_subtree)
  also have "\<dots> = root mt data" unfolding z by (simp add: loop_done)
  finally have "MthFromAp_loop mt (mt_hash mt [mt_twc mt, mt_leafPrefix mt, data ! i])
           (int i) (int (?n - 1)) (slice_of (path_to mt i data)) = root mt data"
    by simp
  moreover have "int ?n - 1 = int (?n - 1)" using assms by simp
  ultimately show ?thesis unfolding MthFromAp_def by (simp only:)
qed

text \<open>
  C3. Audit round-trip. For every sequence of leaves and every index \<open>i\<close> below its
  length (so for every length from 1 on, 256 included), once \<open>Mth\<close> has computed the
  head \<open>r\<close>, \<open>Ap i\<close> returns a path without a panic and \<open>MthFromAp\<close> rebuilds \<open>r\<close>
  from the leaf \<open>data[i]\<close>, its index, the size of the tree and that path: on the tree the
  path was taken from, as \<open>TestAp\<close> does, and on a tree that holds no leaves and an empty
  cache, where nothing but the four arguments carries the head.
\<close>

theorem audit_round_trip:
  assumes "i < length data"
  shows "\<exists>r mt1 path mt2.
      Mth (NewMerkleTree twc lp ip H data) = Some (r, mt1)
    \<and> Ap mt1 (int i) = Some (path, mt2)
    \<and> MthFromAp mt2 (data ! i) (int i) (int (length data)) path = r
    \<and> MthFromAp (NewMerkleTree twc lp ip H []) (data ! i) (int i) (int (length data)) path = r"
proof -
  define mt where "mt = NewMerkleTree twc lp ip H data"
  define mt1 where "mt1 = mt\<lparr>mt_cache := full_cache mt data\<rparr>"
  define v where "v = NewMerkleTree twc lp ip H []"
  have d: "mt_data mt1 = data" unfolding mt1_def mt_def by simp
  have r: "root mt1 data = mth_spec H twc lp ip data"
    unfolding mt1_def mt_def by (simp add: root_def)
  have rv: "root v = root mt1"
    unfolding v_def mt1_def mt_def by (rule ext) (simp add: root_def)
  have pv: "path_to v i data = path_to mt1 i data"
    unfolding path_to_def rv ..
  have 1: "Mth mt = Some (root mt1 data, mt1)"
    unfolding r unfolding mt_def mt1_def by (rule Mth_NewMerkleTree)
  have w: "warm mt1" unfolding mt1_def mt_def by (rule warm_after_Mth)
  have 2: "Ap mt1 (int i) = Some (slice_of (path_to mt1 i data), mt1)"
    using Ap_warm [OF w, of i] unfolding d .
  have 3: "MthFromAp mt1 (data ! i) (int i) (int (length data)) (slice_of (path_to mt1 i data))
    = root mt1 data"
    using assms by (rule MthFromAp_path_to)
  have 4: "MthFromAp v (data ! i) (int i) (int (length data)) (slice_of (path_to mt1 i data))
    = root mt1 data"
    using MthFromAp_path_to [OF assms, of v] unfolding pv rv .
  from 1 2 3 4 show ?thesis unfolding mt_def v_def by blast
qed

theorem audit_round_trip_witness:
  "(1::nat) < length [[1], [2], [3::byte]]
   \<and> (\<exists>r mt1 path mt2.
      Mth (NewMerkleTree [] [0] [1] concat [[1], [2], [3]]) = Some (r, mt1)
    \<and> Ap mt1 (int 1) = Some (path, mt2)
    \<and> MthFromAp mt2 ([[1], [2], [3]] ! 1) (int 1) (int (length [[1], [2], [3::byte]])) path = r
    \<and> MthFromAp (NewMerkleTree [] [0] [1] concat []) ([[1], [2], [3]] ! 1) (int 1)
         (int (length [[1], [2], [3::byte]])) path = r)"
proof -
  have h: "(1::nat) < length [[1], [2], [3::byte]]" by simp
  from audit_round_trip [OF h, of "[]" "[0]" "[1]" concat] h show ?thesis by blast
qed

section \<open>Reconstruction from a range\<close>

lemma path_to_nonempty:
  assumes "2 \<le> length data"
  shows "path_to mt m data \<noteq> []"
proof (cases "m < cut data")
  case True
  then show ?thesis by (simp add: path_to_left [OF assms])
next
  case False
  then show ?thesis by (simp add: path_to_right [OF assms])
qed

lemma last_go_snoc [simp]: "last_go (Some (xs @ [x])) = x"
  by simp

lemma next_go_snoc_snoc [simp]: "next_go (Some (xs @ [y] @ [x])) = Some (xs @ [y])"
  by simp

lemma next_go_snoc:
  assumes "xs \<noteq> []"
  shows "next_go (Some (xs @ [x])) = Some xs"
proof -
  from assms have "1 < length (xs @ [x])" by (cases xs) simp_all
  then show ?thesis by simp
qed

lemma dp_empty: "dp mt [] i n p = last_go p"
  by (subst dp.simps) simp

lemma dp_leaf:
  assumes "data \<noteq> []"
  shows "dp mt data i 1 p = mt_hash mt [mt_twc mt, mt_leafPrefix mt, last data]"
proof -
  have "length data \<noteq> 0" "0 < length data" using assms by simp_all
  moreover have "data ! (length data - 1) = last data"
    using assms by (simp add: last_conv_nth)
  ultimately show ?thesis by (subst dp.simps) simp
qed

lemma dp_node:
  assumes "data \<noteq> []" and "2 \<le> length T"
  shows "dp mt data i (int (length T)) p =
    (case split (int (cut T)) (int (length data)) i of (sindex, lindex, rindex) \<Rightarrow>
       mt_hash mt [mt_interiorPrefix mt,
         dp mt (take (nat sindex) data) lindex (int (cut T)) (next_go p),
         dp mt (drop (nat sindex) data) rindex (int (length T) - int (cut T)) (next_go p)])"
proof -
  have c: "length data \<noteq> 0" "int (length T) \<noteq> 1"
    using assms by simp_all
  show ?thesis
    by (subst dp.simps) (simp only: c if_False Let_def cut_int [OF assms(2)])
qed

lemma split_left:
  assumes "i < k"
  shows "split (int k) n (int i) = (min_go n (int (k - i)), int i, 0)"
  using assms by (simp add: split_def Let_def of_nat_diff)

lemma split_right:
  assumes "k \<le> i"
  shows "split (int k) n (int i) = (0, 0, int (i - k))"
  using assms by (simp add: split_def Let_def of_nat_diff)

lemma min_go_nat: "min_go (int a) (int b) = int (min a b)"
  by (simp add: min_go_def min_def)

text \<open>A subtree that the range covers entirely needs no path.\<close>

lemma dp_cover:
  assumes "T \<noteq> []"
  shows "dp mt T 0 (int (length T)) p = root mt T"
  using assms
proof (induction T arbitrary: p rule: length_induct)
  case (1 T)
  show ?case
  proof (cases "length T \<le> 1")
    case True
    with "1.prems" obtain x where x: "T = [x]" by (cases T) auto
    show ?thesis unfolding x using dp_leaf [of "[x]" mt 0 p] by (simp add: root_single)
  next
    case False
    then have n: "2 \<le> length T" by simp
    note c = cut_bounds [OF n]
    let ?L = "take (cut T) T" and ?R = "drop (cut T) T"
    have sp: "split (int (cut T)) (int (length T)) 0 = (int (cut T), 0, 0)"
      using split_left [OF c(1), of "int (length T)"] c(2) by (simp add: min_go_nat)
    have L: "dp mt ?L 0 (int (cut T)) q = root mt ?L" for q
      using "1.IH" [rule_format, of ?L q] c "1.prems" by simp
    have R: "dp mt ?R 0 (int (length T) - int (cut T)) q = root mt ?R" for q
      using "1.IH" [rule_format, of ?R q] c "1.prems" by (simp add: of_nat_diff)
    show ?thesis
      unfolding dp_node [OF "1.prems" n] sp
      by (simp add: L R root_split [OF n])
  qed
qed


lemma take_drop_left:
  assumes "i \<le> k"
  shows "take (k - i) (drop i T) = drop i (take k T)"
  using assms by (simp add: drop_take)

lemma drop_drop_left:
  assumes "i \<le> k"
  shows "drop (k - i) (drop i T) = drop k T"
  using assms by simp

text \<open>
  A subtree of which the range covers a suffix, with the path to the first leaf of the
  range: the path inside the subtree, followed by one more entry.
\<close>

lemma dp_suffix:
  assumes "i < length T"
  shows "dp mt (drop i T) (int i) (int (length T)) (Some (path_to mt i T @ [X])) = root mt T"
  using assms
proof (induction T arbitrary: i X rule: length_induct)
  case (1 T)
  have ne: "drop i T \<noteq> []" using "1.prems" by simp
  show ?case
  proof (cases "length T \<le> 1")
    case True
    with "1.prems" obtain x where x: "T = [x]" and i: "i = 0" by (cases T) auto
    show ?thesis unfolding x i using dp_leaf [of "[x]" mt 0] by (simp add: root_single)
  next
    case False
    then have n: "2 \<le> length T" by simp
    note c = cut_bounds [OF n]
    let ?k = "cut T"
    let ?L = "take ?k T" and ?R = "drop ?k T"
    have nx: "next_go (Some (path_to mt i T @ [X])) = Some (path_to mt i T)"
      using path_to_nonempty [OF n] by (rule next_go_snoc)
    show ?thesis
    proof (cases "i < ?k")
      case True
      have sp: "split (int ?k) (int (length (drop i T))) (int i) = (int (?k - i), int i, 0)"
        using split_left [OF True, of "int (length (drop i T))"] c(2)
        by (simp add: min_go_nat)
      have l: "dp mt (drop i ?L) (int i) (int ?k) (Some (path_to mt i ?L @ [root mt ?R])) = root mt ?L"
        using "1.IH" [rule_format, of ?L i "root mt ?R"] c True by simp
      have r: "dp mt ?R 0 (int (length T) - int ?k) q = root mt ?R" for q
        using dp_cover [of ?R mt q] c by (simp add: of_nat_diff)
      have t: "take (nat (int (?k - i))) (drop i T) = drop i ?L"
        unfolding nat_int using True by (intro take_drop_left) simp
      have d: "drop (nat (int (?k - i))) (drop i T) = ?R"
        unfolding nat_int using True by (intro drop_drop_left) simp
      show ?thesis
        unfolding dp_node [OF ne n] sp nx
        by (simp only: prod.case t d path_to_left [OF n True] l r root_split [OF n])
    next
      case F: False
      then have ki: "?k \<le> i" by simp
      have sp: "split (int ?k) (int (length (drop i T))) (int i) = (0, 0, int (i - ?k))"
        using ki by (rule split_right)
      have dr: "drop i T = drop (i - ?k) ?R" using ki by simp
      have r: "dp mt (drop i T) (int (i - ?k)) (int (length T) - int ?k)
          (Some (path_to mt (i - ?k) ?R @ [root mt ?L])) = root mt ?R"
        unfolding dr
        using "1.IH" [rule_format, of ?R "i - ?k" "root mt ?L"] c ki "1.prems"
        by (simp add: of_nat_diff)
      have t: "take (nat 0) (drop i T) = []" "drop (nat 0) (drop i T) = drop i T" by simp_all
      show ?thesis
        unfolding dp_node [OF ne n] sp nx
        by (simp only: prod.case t dp_empty path_to_right [OF n F] last_go_snoc r root_split [OF n])
    qed
  qed
qed

text \<open>
  A subtree of which the range covers a prefix, with the path to the last leaf of the
  range.
\<close>

lemma dp_prefix:
  assumes "0 < j" and "j \<le> length T"
  shows "dp mt (take j T) 0 (int (length T)) (Some (path_to mt (j - 1) T @ [X])) = root mt T"
  using assms
proof (induction T arbitrary: j X rule: length_induct)
  case (1 T)
  note prems = "1.prems"
  have ne: "take j T \<noteq> []" using prems by (cases T) auto
  show ?case
  proof (cases "length T \<le> 1")
    case True
    with prems obtain x where x: "T = [x]" and j: "j = 1" by (cases T) auto
    show ?thesis unfolding x j using dp_leaf [of "[x]" mt 0] by (simp add: root_single)
  next
    case False
    then have n: "2 \<le> length T" by simp
    note c = cut_bounds [OF n]
    let ?k = "cut T"
    let ?L = "take ?k T" and ?R = "drop ?k T"
    have nx: "next_go (Some (path_to mt (j - 1) T @ [X])) = Some (path_to mt (j - 1) T)"
      using path_to_nonempty [OF n] by (rule next_go_snoc)
    have len: "length (take j T) = j" using prems by simp
    show ?thesis
    proof (cases "j \<le> ?k")
      case True
      then have lt: "j - 1 < ?k" using prems(1) by simp
      have sp: "split (int ?k) (int (length (take j T))) 0 = (int j, 0, 0)"
        unfolding len using split_left [OF c(1), of "int j"] True
        by (simp add: min_go_nat min_def)
      have t: "take (nat (int j)) (take j T) = take j ?L" "drop (nat (int j)) (take j T) = []"
        using True by (simp_all add: min_def)
      have l: "dp mt (take j ?L) 0 (int ?k) (Some (path_to mt (j - 1) ?L @ [root mt ?R]))
          = root mt ?L"
        using "1.IH" [rule_format, of ?L j "root mt ?R"] c True prems(1) by simp
      show ?thesis
        unfolding dp_node [OF ne n] nx sp
        by (simp only: prod.case t dp_empty path_to_left [OF n lt] last_go_snoc l
            root_split [OF n])
    next
      case F: False
      then have kj: "?k < j" and nlt: "\<not> j - 1 < ?k" by simp_all
      have sp: "split (int ?k) (int (length (take j T))) 0 = (int ?k, 0, 0)"
        unfolding len using split_left [OF c(1), of "int j"] kj
        by (simp add: min_go_nat min_def)
      have t: "take (nat (int ?k)) (take j T) = ?L"
        "drop (nat (int ?k)) (take j T) = take (j - ?k) ?R"
        using kj by (simp_all add: min_def drop_take)
      have l: "dp mt ?L 0 (int ?k) q = root mt ?L" for q
        using dp_cover [of ?L mt q] c n by (cases T) simp_all
      have e: "j - 1 - ?k = (j - ?k) - 1" by simp
      have r: "dp mt (take (j - ?k) ?R) 0 (int (length T) - int ?k)
          (Some (path_to mt (j - 1 - ?k) ?R @ [root mt ?L])) = root mt ?R"
        unfolding e
        using "1.IH" [rule_format, of ?R "j - ?k" "root mt ?L"] c kj prems
        by (simp add: of_nat_diff)
      show ?thesis
        unfolding dp_node [OF ne n] nx sp
        by (simp only: prod.case t path_to_right [OF n nlt] l r root_split [OF n])
    qed
  qed
qed

text \<open>
  The range \<open>[i, j)\<close> of a tree forks at the node that has leaf \<open>i\<close> in its left child
  and leaf \<open>j - 1\<close> in its right child. \<open>fork_distinct\<close> says that the digests of these
  two children differ; \<open>rt\<close> is the digest function of the tree.
\<close>

function fork_distinct :: "(bytes list \<Rightarrow> bytes) \<Rightarrow> nat \<Rightarrow> nat \<Rightarrow> bytes list \<Rightarrow> bool" where
  "fork_distinct rt i j data =
     (if length data \<le> 1 then True
      else if j \<le> cut data then fork_distinct rt i j (take (cut data) data)
      else if cut data \<le> i then
        fork_distinct rt (i - cut data) (j - cut data) (drop (cut data) data)
      else rt (take (cut data) data) \<noteq> rt (drop (cut data) data))"
  by pat_completeness auto
termination
proof (relation "measure (\<lambda>(rt, i, j, data). length data)")
  show "wf (measure (\<lambda>(rt, i, j, data). length data))" by simp
next
  fix rt :: "bytes list \<Rightarrow> bytes" and i j :: nat and data :: "bytes list"
  assume "\<not> length data \<le> 1"
  then have "2 \<le> length data" by linarith
  from cut_bounds [OF this]
  show "((rt, i, j, take (cut data) data), (rt, i, j, data))
    \<in> measure (\<lambda>(rt, i, j, data). length data)"
    by simp
next
  fix rt :: "bytes list \<Rightarrow> bytes" and i j :: nat and data :: "bytes list"
  assume "\<not> length data \<le> 1"
  then have "2 \<le> length data" by linarith
  from cut_bounds [OF this]
  show "((rt, i - cut data, j - cut data, drop (cut data) data), (rt, i, j, data))
    \<in> measure (\<lambda>(rt, i, j, data). length data)"
    by simp
qed

declare fork_distinct.simps [simp del]

lemma jp_node:
  assumes "2 \<le> length T"
  shows "jp mt data i (int (length T)) lAp rAp =
    (case split (int (cut T)) (int (length data)) i of (sindex, lindex, rindex) \<Rightarrow>
        if lAp \<noteq> None \<and> rAp \<noteq> None \<and> last_go lAp = last_go rAp then
          (if sindex > 0 then
             mt_hash mt [mt_interiorPrefix mt,
               jp mt data lindex (int (cut T)) (next_go lAp) (next_go rAp),
               last_go lAp]
           else
             mt_hash mt [mt_interiorPrefix mt,
               last_go rAp,
               jp mt data rindex (int (length T) - int (cut T)) (next_go lAp) (next_go rAp)])
        else
          (let lAp' = (if lAp = None then rAp else lAp);
               rAp' = (if lAp \<noteq> None \<and> rAp = None then lAp else rAp)
           in mt_hash mt [mt_interiorPrefix mt,
                dp mt (take (nat sindex) data) lindex (int (cut T)) lAp',
                dp mt (drop (nat sindex) data) rindex (int (length T) - int (cut T)) rAp']))"
  by (subst jp.simps) (simp only: Let_def cut_int [OF assms])

text \<open>Both paths present: they run together down to the fork.\<close>

lemma jp_joint:
  assumes "i + 2 \<le> j" and "j \<le> length T" and "fork_distinct (root mt) i j T"
  shows "jp mt (take (j - i) (drop i T)) (int i) (int (length T))
           (Some (path_to mt i T)) (Some (path_to mt (j - 1) T)) = root mt T"
  using assms
proof (induction T arbitrary: i j rule: length_induct)
  case (1 T)
  note prems = "1.prems"
  have n: "2 \<le> length T" using prems by simp
  note c = cut_bounds [OF n]
  let ?k = "cut T"
  let ?L = "take ?k T" and ?R = "drop ?k T"
  let ?data = "take (j - i) (drop i T)"
  have len: "length ?data = j - i" using prems by simp
  have nl1: "\<not> length T \<le> 1" using n by simp
  show ?case
  proof (cases "j \<le> ?k")
    case True
    then have ik: "i < ?k" and jk: "j - 1 < ?k" using prems(1) by simp_all
    have k2: "2 \<le> length ?L" using True prems(1) c by simp
    have sp: "split (int ?k) (int (length ?data)) (int i) = (int (j - i), int i, 0)"
      unfolding len using split_left [OF ik, of "int (j - i)"] True
      by (simp add: min_go_nat min_def)
    have pl: "path_to mt i T = path_to mt i ?L @ [root mt ?R]"
      by (rule path_to_left [OF n ik])
    have pr: "path_to mt (j - 1) T = path_to mt (j - 1) ?L @ [root mt ?R]"
      by (rule path_to_left [OF n jk])
    have nl: "next_go (Some (path_to mt i ?L @ [root mt ?R])) = Some (path_to mt i ?L)"
      using path_to_nonempty [OF k2] by (rule next_go_snoc)
    have nr: "next_go (Some (path_to mt (j - 1) ?L @ [root mt ?R])) = Some (path_to mt (j - 1) ?L)"
      using path_to_nonempty [OF k2] by (rule next_go_snoc)
    have pos: "int (j - i) > 0" using prems(1) by simp
    have d: "?data = take (j - i) (drop i ?L)"
      using True by (simp add: drop_take)
    have f: "fork_distinct (root mt) i j ?L"
      using prems(3) True nl1 by (subst (asm) fork_distinct.simps) simp
    have IH: "jp mt (take (j - i) (drop i ?L)) (int i) (int (length ?L))
        (Some (path_to mt i ?L)) (Some (path_to mt (j - 1) ?L)) = root mt ?L"
      using "1.IH" [rule_format, of ?L i j] c prems(1) True f by simp
    have lk: "int (length ?L) = int ?k" using c by simp
    show ?thesis
      unfolding jp_node [OF n] sp pl pr
      by (simp only: prod.case last_go_snoc option.distinct not_False_eq_True simp_thms if_True
          pos nl nr IH [unfolded lk d [symmetric]] root_split [OF n])
  next
    case False
    then have kj: "?k < j" by simp
    show ?thesis
    proof (cases "?k \<le> i")
      case True
      then have nik: "\<not> i < ?k" and njk: "\<not> j - 1 < ?k" using prems(1) by simp_all
      have r2: "2 \<le> length ?R" using True prems(1,2) by simp
      have sp: "split (int ?k) (int (length ?data)) (int i) = (0, 0, int (i - ?k))"
        using True by (rule split_right)
      have pl: "path_to mt i T = path_to mt (i - ?k) ?R @ [root mt ?L]"
        by (rule path_to_right [OF n nik])
      have pr: "path_to mt (j - 1) T = path_to mt (j - 1 - ?k) ?R @ [root mt ?L]"
        by (rule path_to_right [OF n njk])
      have nl: "next_go (Some (path_to mt (i - ?k) ?R @ [root mt ?L])) = Some (path_to mt (i - ?k) ?R)"
        using path_to_nonempty [OF r2] by (rule next_go_snoc)
      have nr: "next_go (Some (path_to mt (j - 1 - ?k) ?R @ [root mt ?L]))
          = Some (path_to mt (j - 1 - ?k) ?R)"
        using path_to_nonempty [OF r2] by (rule next_go_snoc)
      have d: "?data = take ((j - ?k) - (i - ?k)) (drop (i - ?k) ?R)"
        using True kj by simp
      have e: "j - 1 - ?k = (j - ?k) - 1" by simp
      have f: "fork_distinct (root mt) (i - ?k) (j - ?k) ?R"
        using prems(3) True False nl1 by (subst (asm) fork_distinct.simps) simp
      have IH: "jp mt (take ((j - ?k) - (i - ?k)) (drop (i - ?k) ?R)) (int (i - ?k))
          (int (length ?R)) (Some (path_to mt (i - ?k) ?R)) (Some (path_to mt ((j - ?k) - 1) ?R))
          = root mt ?R"
        using "1.IH" [rule_format, of ?R "i - ?k" "j - ?k"] c prems(1,2) True f by simp
      have lk: "int (length ?R) = int (length T) - int ?k" using c by (simp add: of_nat_diff)
      have npos: "\<not> (0::int) > 0" by simp
      show ?thesis
        unfolding jp_node [OF n] sp pl pr
        by (simp only: prod.case last_go_snoc option.distinct not_False_eq_True simp_thms if_True
            if_False npos nl nr IH [unfolded lk d [symmetric] e [symmetric]] root_split [OF n])
    next
      case F: False
      then have ik: "i < ?k" and njk: "\<not> j - 1 < ?k" using kj by simp_all
      have sp: "split (int ?k) (int (length ?data)) (int i) = (int (?k - i), int i, 0)"
        unfolding len using split_left [OF ik, of "int (j - i)"] kj
        by (simp add: min_go_nat min_def)
      have pl: "path_to mt i T = path_to mt i ?L @ [root mt ?R]"
        by (rule path_to_left [OF n ik])
      have pr: "path_to mt (j - 1) T = path_to mt (j - 1 - ?k) ?R @ [root mt ?L]"
        by (rule path_to_right [OF n njk])
      have ne: "root mt ?R \<noteq> root mt ?L"
        using prems(3) False F nl1 by (subst (asm) fork_distinct.simps) auto
      have t: "take (nat (int (?k - i))) ?data = drop i ?L"
        unfolding nat_int using ik kj by (simp add: drop_take min_def)
      have dd: "drop (nat (int (?k - i))) ?data = take (j - ?k) ?R"
        unfolding nat_int using ik kj prems by (simp add: drop_take)
      have l: "dp mt (drop i ?L) (int i) (int ?k) (Some (path_to mt i ?L @ [root mt ?R])) = root mt ?L"
        using dp_suffix [of i ?L mt "root mt ?R"] ik c by simp
      have e: "j - 1 - ?k = (j - ?k) - 1" by simp
      have r: "dp mt (take (j - ?k) ?R) 0 (int (length T) - int ?k)
          (Some (path_to mt (j - 1 - ?k) ?R @ [root mt ?L])) = root mt ?R"
        unfolding e
        using dp_prefix [of "j - ?k" ?R mt "root mt ?L"] kj prems(2) c
        by (simp add: of_nat_diff)
      show ?thesis
        unfolding jp_node [OF n] sp pl pr
        by (simp only: prod.case last_go_snoc option.distinct not_False_eq_True simp_thms if_True
            if_False ne Let_def t dd l r root_split [OF n])
    qed
  qed
qed

text \<open>One path for both halves: \<open>jp\<close> does what \<open>dp\<close> does one level further up.\<close>

lemma jp_single:
  assumes "2 \<le> length T" and "data \<noteq> []" and "lAp = None \<or> rAp = None"
    and "(if lAp = None then rAp else lAp) = Some path" and "path \<noteq> []"
  shows "jp mt data i (int (length T)) lAp rAp
    = dp mt data i (int (length T)) (Some (path @ [X]))"
proof -
  have c: "\<not> (lAp \<noteq> None \<and> rAp \<noteq> None \<and> last_go lAp = last_go rAp)"
    using assms(3) by blast
  have r: "(if lAp \<noteq> None \<and> rAp = None then lAp else rAp) = Some path"
    using assms(3,4) by (cases "lAp = None") auto
  have nx: "next_go (Some (path @ [X])) = Some path"
    using assms(5) by (rule next_go_snoc)
  show ?thesis
    unfolding jp_node [OF assms(1)] dp_node [OF assms(2,1)] nx
    by (simp only: c if_False Let_def assms(4) r)
qed

lemma jp_none:
  assumes "2 \<le> length T"
  shows "jp mt T 0 (int (length T)) None None = root mt T"
proof -
  note c = cut_bounds [OF assms]
  let ?L = "take (cut T) T" and ?R = "drop (cut T) T"
  have sp: "split (int (cut T)) (int (length T)) 0 = (int (cut T), 0, 0)"
    using split_left [OF c(1), of "int (length T)"] c(2) by (simp add: min_go_nat)
  have L: "dp mt ?L 0 (int (cut T)) q = root mt ?L" for q
    using dp_cover [of ?L mt q] c assms by (cases T) simp_all
  have R: "dp mt ?R 0 (int (length T) - int (cut T)) q = root mt ?R" for q
    using dp_cover [of ?R mt q] c by (simp add: of_nat_diff)
  have t: "take (nat (int (cut T))) T = ?L" "drop (nat (int (cut T))) T = ?R"
    by simp_all
  show ?thesis
    unfolding jp_node [OF assms] sp
    by (simp only: prod.case simp_thms if_False if_True Let_def t L R root_split [OF assms])
qed

text \<open>
  The range \<open>[i, j)\<close> of a tree of at least two leaves, with the path to its first leaf
  unless the range starts the tree, and the path to its last leaf unless it ends the tree.
\<close>

lemma jp_range:
  assumes n: "2 \<le> length T" and ij: "i < j" "j \<le> length T"
    and l: "lAp = None \<and> i = 0 \<or> lAp = Some (path_to mt i T)"
    and r: "rAp = None \<and> j = length T \<or> rAp = Some (path_to mt (j - 1) T)"
    and b: "lAp \<noteq> None \<Longrightarrow> rAp \<noteq> None \<Longrightarrow> i + 2 \<le> j \<and> fork_distinct (root mt) i j T"
  shows "jp mt (take (j - i) (drop i T)) (int i) (int (length T)) lAp rAp = root mt T"
proof -
  let ?data = "take (j - i) (drop i T)"
  have ne: "?data \<noteq> []" using ij by simp
  show ?thesis
  proof (cases "lAp = None")
    case lN: True
    with l have i: "i = 0" by simp
    show ?thesis
    proof (cases "rAp = None")
      case True
      with r have j: "j = length T" by simp
      show ?thesis unfolding lN True i j using jp_none [OF n] by simp
    next
      case False
      with r have rp: "rAp = Some (path_to mt (j - 1) T)" by simp
      have "jp mt ?data (int i) (int (length T)) lAp rAp
          = dp mt ?data (int i) (int (length T)) (Some (path_to mt (j - 1) T @ [[]]))"
        using n ne _ _ path_to_nonempty [OF n]
        by (rule jp_single) (simp_all add: lN rp)
      also have "\<dots> = root mt T"
        unfolding i using dp_prefix [of j T mt "[]"] ij by simp
      finally show ?thesis .
    qed
  next
    case lS: False
    with l have lp: "lAp = Some (path_to mt i T)" by simp
    show ?thesis
    proof (cases "rAp = None")
      case True
      with r have j: "j = length T" by simp
      have "jp mt ?data (int i) (int (length T)) lAp rAp
          = dp mt ?data (int i) (int (length T)) (Some (path_to mt i T @ [[]]))"
        using n ne _ _ path_to_nonempty [OF n]
        by (rule jp_single) (simp_all add: True lp)
      also have "\<dots> = root mt T"
        unfolding j using dp_suffix [of i T mt "[]"] ij by simp
      finally show ?thesis .
    next
      case False
      with r have rp: "rAp = Some (path_to mt (j - 1) T)" by simp
      from b [OF lS False] have "i + 2 \<le> j" "fork_distinct (root mt) i j T" by simp_all
      then show ?thesis unfolding lp rp using ij(2) by (intro jp_joint)
    qed
  qed
qed

lemma MthFromRangeAp_range:
  assumes n: "2 \<le> length T" and sz: "int (length T) < 2 ^ 63" and ij: "i < j" "j \<le> length T"
    and e: "i + 2 \<le> j \<or> i = 0 \<or> j = length T"
    and l: "lAp = None \<and> i = 0 \<or> lAp = Some (path_to mt i T)"
    and r: "rAp = None \<and> j = length T \<or> rAp = Some (path_to mt (j - 1) T)"
    and b: "lAp \<noteq> None \<Longrightarrow> rAp \<noteq> None \<Longrightarrow> i + 2 \<le> j \<and> fork_distinct (root mt) i j T"
  shows "MthFromRangeAp mt (Some (take (j - i) (drop i T))) (int i) (int (length T)) lAp rAp
    = Inr (root mt T)"
proof -
  have c: "int (length T) \<noteq> 0" "int (length T) \<noteq> 1" using n by auto
  have len: "len (Some (take (j - i) (drop i T))) = int (j - i)" using ij by simp
  have s: "int i + int (j - i) = int j" using ij by simp
  have w1: "wrap64 (int i + int (j - i)) = int j"
    unfolding s using sz ij by (intro wrap64_id) simp_all
  have w2: "wrap64 (int (length T) - 1) = int (length T) - 1"
    using sz n by (intro wrap64_id) simp_all
  have 1: "\<not> int j > int (length T)" using ij by simp
  have 2: "\<not> (int (j - i) = 1 \<and> int i > 0 \<and> int i < int (length T) - 1)"
    using e ij by auto
  have jr: "jp mt (take (j - i) (drop i T)) (int i) (int (length T)) lAp rAp = root mt T"
    using n ij l r b by (rule jp_range)
  show ?thesis
    unfolding MthFromRangeAp_def
    by (simp only: c if_False len w1 w2 1 2 entries.simps jr)
qed

lemma MthFromRangeAp_single:
  "MthFromRangeAp mt (Some [x]) 0 1 None None = Inr (root mt [x])"
  by (simp add: MthFromRangeAp_def root_single)

lemma mth_spec_code [code]:
  "mth_spec H twc leafTag interiorTag data =
     (if length data = 0 then H [twc]
      else if length data = 1 then H [twc, leafTag, data ! 0]
      else
        (let k = nat (lpow2s (int (length data)))
         in H [interiorTag,
               mth_spec H twc leafTag interiorTag (take k data),
               mth_spec H twc leafTag interiorTag (drop k data)]))"
proof (cases "2 \<le> length data")
  case True
  then have "length data \<noteq> 0" "length data \<noteq> 1" by auto
  then show ?thesis
    by (subst mth_spec.simps)
      (simp only: if_False Let_def largest_pow2_below_cut [OF True] cut_def)
next
  case False
  then have "length data = 0 \<or> length data = 1" by linarith
  then show ?thesis by (subst mth_spec.simps) auto
qed

text \<open>
  The range proof of \<open>TestRangeAp\<close> (src/mt_test.go): the head first, then the path to the
  first leaf of the range unless \<open>i = 0\<close>, the path to its last leaf unless \<open>j = n\<close>, and
  the reconstruction from \<open>d[i:j]\<close>. The result is the head, what \<open>MthFromRangeAp\<close>
  returns on the tree of the test, and what it returns on a tree that holds no leaves and
  an empty cache, the tree \<open>Verify\<close> builds.
\<close>

definition TestRangeAp ::
  "bytes \<Rightarrow> bytes \<Rightarrow> bytes \<Rightarrow> (bytes list \<Rightarrow> bytes) \<Rightarrow> bytes list \<Rightarrow> nat \<Rightarrow> nat
    \<Rightarrow> (bytes \<times> (error + bytes) \<times> (error + bytes)) option" where
  "TestRangeAp twc lp ip H d i j =
     (let n = length d in
      case Mth (NewMerkleTree twc lp ip H d) of None \<Rightarrow> None | Some (r, mt1) \<Rightarrow>
      case (if i \<noteq> 0 then Ap mt1 (int i) else Some (None, mt1)) of
        None \<Rightarrow> None | Some (lAp, mt2) \<Rightarrow>
      case (if j \<noteq> n then Ap mt2 (int j - 1) else Some (None, mt2)) of
        None \<Rightarrow> None | Some (rAp, mt3) \<Rightarrow>
        Some (r,
          MthFromRangeAp mt3 (Some (take (j - i) (drop i d))) (int i) (int n) lAp rAp,
          MthFromRangeAp (NewMerkleTree twc lp ip H [])
            (Some (take (j - i) (drop i d))) (int i) (int n) lAp rAp))"

text \<open>
  The same with the paths the specification names: the path to leaf \<open>i - 1\<close> unless
  \<open>i = 0\<close> and the path to leaf \<open>j\<close> unless \<open>j = n\<close>.
\<close>

definition spec_range_round_trip ::
  "bytes \<Rightarrow> bytes \<Rightarrow> bytes \<Rightarrow> (bytes list \<Rightarrow> bytes) \<Rightarrow> bytes list \<Rightarrow> nat \<Rightarrow> nat
    \<Rightarrow> (bytes \<times> (error + bytes) \<times> (error + bytes)) option" where
  "spec_range_round_trip twc lp ip H d i j =
     (let n = length d in
      case Mth (NewMerkleTree twc lp ip H d) of None \<Rightarrow> None | Some (r, mt1) \<Rightarrow>
      case (if i > 0 then Ap mt1 (int i - 1) else Some (None, mt1)) of
        None \<Rightarrow> None | Some (lAp, mt2) \<Rightarrow>
      case (if j < n then Ap mt2 (int j) else Some (None, mt2)) of
        None \<Rightarrow> None | Some (rAp, mt3) \<Rightarrow>
        Some (r,
          MthFromRangeAp mt3 (Some (take (j - i) (drop i d))) (int i) (int n) lAp rAp,
          MthFromRangeAp (NewMerkleTree twc lp ip H [])
            (Some (take (j - i) (drop i d))) (int i) (int n) lAp rAp))"

lemma root_NewMerkleTree [simp]:
  "root (NewMerkleTree twc lp ip H d) = mth_spec H twc lp ip"
  by (rule ext) (simp add: root_def)

text \<open>
  The reconstruction on any tree \<open>v\<close> with the hash function and the constants of the
  tree the paths come from: it reads neither the leaves nor the cache of \<open>v\<close>.
\<close>

lemma range_from_paths:
  assumes n: "1 \<le> length d" and sz: "int (length d) < 2 ^ 63" and ij: "i < j" "j \<le> length d"
    and e: "2 \<le> j - i \<or> i = 0 \<or> j = length d"
    and f: "0 < i \<and> j < length d \<longrightarrow> fork_distinct (root v) i j d"
  defines "lAp \<equiv> (if i \<noteq> 0 then slice_of (path_to v i d) else None)"
    and "rAp \<equiv> (if j \<noteq> length d then slice_of (path_to v (j - 1) d) else None)"
  shows "MthFromRangeAp v (Some (take (j - i) (drop i d))) (int i) (int (length d)) lAp rAp
    = Inr (root v d)"
proof (cases "length d = 1")
  case True
  then obtain x where x: "d = [x]" by (cases d) auto
  from ij True have i: "i = 0" and j: "j = 1" by simp_all
  show ?thesis unfolding lAp_def rAp_def x i j using MthFromRangeAp_single [of v x] by simp
next
  case False
  with n have n2: "2 \<le> length d" by simp
  have sl: "slice_of (path_to v m d) = Some (path_to v m d)" for m
    using path_to_nonempty [OF n2, of v m] by (simp add: slice_of_def)
  show ?thesis
  proof (rule MthFromRangeAp_range [OF n2 sz ij])
    show "i + 2 \<le> j \<or> i = 0 \<or> j = length d" using e by auto
    show "lAp = None \<and> i = 0 \<or> lAp = Some (path_to v i d)"
      unfolding lAp_def by (simp add: sl)
    show "rAp = None \<and> j = length d \<or> rAp = Some (path_to v (j - 1) d)"
      unfolding rAp_def by (simp add: sl)
    show "i + 2 \<le> j \<and> fork_distinct (root v) i j d" if "lAp \<noteq> None" "rAp \<noteq> None"
    proof -
      from that have "i \<noteq> 0" "j \<noteq> length d"
        unfolding lAp_def rAp_def by (auto split: if_splits)
      with e f ij show ?thesis by auto
    qed
  qed
qed

text \<open>Two trees with the same digest function have the same audit paths.\<close>

lemma path_to_cong: "root v = root mt \<Longrightarrow> path_to v m d = path_to mt m d"
  by (simp add: path_to_def)

text \<open>
  C9. The claim is what \<open>MthFromRangeAp\<close> documents and what \<open>TestRangeAp\<close> checks, and the
  code breaks it when the two children of the node at which the range forks have the same
  digest. \<open>jp\<close> takes equal outermost entries of the two paths (\<open>bytes.Equal\<close>) as the sign
  that both paths go down the same child, and then sends the whole range into the left
  child. With four equal leaves the children of the root have the same digest; for the
  range \<open>[1, 3)\<close> the paths to leaf 1 and to leaf 2 part at the root, and the digest
  \<open>MthFromRangeAp\<close> returns is not the head, on the tree of the test and on a tree without
  leaves alike. The leaves \<open>1, 2, 1, 2\<close> fail in the same way.
\<close>

theorem equal_siblings_failing_input:
  "TestRangeAp [] [0] [1] concat [[7], [7], [7], [7]] 1 3
     = Some ([1, 1, 0, 7, 0, 7, 1, 0, 7, 0, 7],
             Inr [1, 1, 0, 7, 1, 0, 7, 1, 0, 7, 0, 7],
             Inr [1, 1, 0, 7, 1, 0, 7, 1, 0, 7, 0, 7])
   \<and> [1, 1, 0, 7, 0, 7, 1, 0, 7, 0, 7] \<noteq> [1, 1, 0, 7, 1, 0, 7, 1, 0, 7, 0, 7 :: byte]
   \<and> TestRangeAp [] [0] [1] concat [[1], [2], [1], [2]] 1 3
     = Some ([1, 1, 0, 1, 0, 2, 1, 0, 1, 0, 2],
             Inr [1, 1, 0, 1, 0, 1, 1, 0, 1, 0, 2],
             Inr [1, 1, 0, 1, 0, 1, 1, 0, 1, 0, 2])
   \<and> [1, 1, 0, 1, 0, 2, 1, 0, 1, 0, 2] \<noteq> [1, 1, 0, 1, 0, 1, 1, 0, 1, 0, 2 :: byte]"
  by code_simp

text \<open>
  C2, as stated, fails: the paths \<open>MthFromRangeAp\<close> expects lead to the first and the last
  leaf of the range, not to the leaves next to it. For three leaves and the range
  \<open>[1, 3)\<close> the specification passes the path to leaf 0; the digest that comes back is not
  the head.
\<close>

theorem paths_outside_range_counterexample:
  "spec_range_round_trip [] [0] [1] concat [[1], [2], [3]] 1 3
     = Some ([1, 1, 0, 1, 0, 2, 0, 3], Inr [1, 1, 0, 2, 0, 2, 0, 3], Inr [1, 1, 0, 2, 0, 2, 0, 3])
   \<and> [1, 1, 0, 1, 0, 2, 0, 3] \<noteq> [1, 1, 0, 2, 0, 2, 0, 3 :: byte]"
  by code_simp

text \<open>
  C2, amended. For every sequence of \<open>n \<ge> 1\<close> leaves (\<open>n\<close> a 64-bit integer) and every range
  \<open>[i, j)\<close> of it with \<open>j - i \<ge> 2\<close> or \<open>i = 0\<close> or \<open>j = n\<close>: once \<open>Mth\<close> has computed the
  head, with \<open>lAp = Ap(i)\<close> if \<open>i > 0\<close> and absent otherwise, and \<open>rAp = Ap(j - 1)\<close> if
  \<open>j < n\<close> and absent otherwise, \<open>MthFromRangeAp(data[i..j], i, n, lAp, rAp)\<close> succeeds
  and returns the head, provided that, when both paths are present, the two children of
  the node at which the range forks have different digests. This holds on the tree the
  paths were taken from and on a tree that holds no leaves and an empty cache: the head is
  rebuilt from the range, the index, the size and the two paths.
\<close>

theorem range_round_trip_amended:
  assumes "1 \<le> length d" and "int (length d) < 2 ^ 63" and "i < j" and "j \<le> length d"
    and "2 \<le> j - i \<or> i = 0 \<or> j = length d"
    and "0 < i \<and> j < length d \<longrightarrow> fork_distinct (mth_spec H twc lp ip) i j d"
  shows "\<exists>r mt1 lAp rAp.
      Mth (NewMerkleTree twc lp ip H d) = Some (r, mt1)
    \<and> (if 0 < i then Ap mt1 (int i) = Some (lAp, mt1) else lAp = None)
    \<and> (if j < length d then Ap mt1 (int j - 1) = Some (rAp, mt1) else rAp = None)
    \<and> MthFromRangeAp mt1 (Some (take (j - i) (drop i d))) (int i) (int (length d)) lAp rAp
        = Inr r
    \<and> MthFromRangeAp (NewMerkleTree twc lp ip H [])
         (Some (take (j - i) (drop i d))) (int i) (int (length d)) lAp rAp = Inr r"
proof -
  define mt where "mt = NewMerkleTree twc lp ip H d"
  define mt1 where "mt1 = mt\<lparr>mt_cache := full_cache mt d\<rparr>"
  define v where "v = NewMerkleTree twc lp ip H []"
  have d: "mt_data mt1 = d" unfolding mt1_def mt_def by simp
  have r: "root mt1 = mth_spec H twc lp ip" unfolding mt1_def mt_def by simp
  have rv: "root v = mth_spec H twc lp ip" unfolding v_def by simp
  have pv: "path_to v m d = path_to mt1 m d" for m
    by (rule path_to_cong) (simp only: r rv)
  have 1: "Mth mt = Some (mth_spec H twc lp ip d, mt1)"
    unfolding mt_def mt1_def by (rule Mth_NewMerkleTree)
  have w: "warm mt1" unfolding mt1_def mt_def by (rule warm_after_Mth)
  have a: "Ap mt1 (int m) = Some (slice_of (path_to mt1 m d), mt1)" for m
    using Ap_warm [OF w, of m] unfolding d .
  have j1: "int j - 1 = int (j - 1)" using assms(3) by simp
  have f1: "0 < i \<and> j < length d \<longrightarrow> fork_distinct (root mt1) i j d"
    unfolding r by (rule assms(6))
  have fv: "0 < i \<and> j < length d \<longrightarrow> fork_distinct (root v) i j d"
    unfolding rv by (rule assms(6))
  define lAp where "lAp = (if i \<noteq> 0 then slice_of (path_to mt1 i d) else None)"
  define rAp where "rAp = (if j \<noteq> length d then slice_of (path_to mt1 (j - 1) d) else None)"
  have L: "if 0 < i then Ap mt1 (int i) = Some (lAp, mt1) else lAp = None"
    unfolding lAp_def by (simp add: a)
  have R: "if j < length d then Ap mt1 (int j - 1) = Some (rAp, mt1) else rAp = None"
    unfolding rAp_def j1 using assms(4) by (simp add: a)
  have m: "MthFromRangeAp mt1 (Some (take (j - i) (drop i d))) (int i) (int (length d)) lAp rAp
    = Inr (mth_spec H twc lp ip d)"
    using range_from_paths [OF assms(1-5) f1] unfolding r lAp_def rAp_def .
  have m': "MthFromRangeAp v (Some (take (j - i) (drop i d))) (int i) (int (length d)) lAp rAp
    = Inr (mth_spec H twc lp ip d)"
    using range_from_paths [OF assms(1-5) fv] unfolding rv pv lAp_def rAp_def .
  from 1 L R m m' show ?thesis unfolding mt_def v_def by blast
qed

theorem range_round_trip_amended_witness:
  "1 \<le> length [[1], [2], [3], [4], [5 :: byte]]
   \<and> int (length [[1], [2], [3], [4], [5 :: byte]]) < 2 ^ 63 \<and> (2::nat) < 4
   \<and> 4 \<le> length [[1], [2], [3], [4], [5 :: byte]] \<and> (2::nat) \<le> 4 - 2
   \<and> fork_distinct (mth_spec concat [] [0] [1]) 2 4 [[1], [2], [3], [4], [5]]
   \<and> (\<exists>r mt1 lAp rAp.
      Mth (NewMerkleTree [] [0] [1] concat [[1], [2], [3], [4], [5]]) = Some (r, mt1)
    \<and> Ap mt1 (int 2) = Some (lAp, mt1)
    \<and> Ap mt1 (int 4 - 1) = Some (rAp, mt1)
    \<and> MthFromRangeAp mt1 (Some (take (4 - 2) (drop 2 [[1], [2], [3], [4], [5]]))) (int 2)
         (int (length [[1], [2], [3], [4], [5 :: byte]])) lAp rAp = Inr r
    \<and> MthFromRangeAp (NewMerkleTree [] [0] [1] concat [])
         (Some (take (4 - 2) (drop 2 [[1], [2], [3], [4], [5]]))) (int 2)
         (int (length [[1], [2], [3], [4], [5 :: byte]])) lAp rAp = Inr r)"
proof -
  have h: "1 \<le> length [[1], [2], [3], [4], [5 :: byte]]"
    "int (length [[1], [2], [3], [4], [5 :: byte]]) < 2 ^ 63" "(2::nat) < 4"
    "4 \<le> length [[1], [2], [3], [4], [5 :: byte]]" "(2::nat) \<le> 4 - 2"
    by simp_all
  have f: "fork_distinct (mth_spec concat [] [0] [1]) 2 4 [[1], [2], [3], [4], [5]]"
    by code_simp
  have c: "(0::nat) < 2" "4 < length [[1], [2], [3], [4], [5 :: byte]]" by simp_all
  have "\<exists>r mt1 lAp rAp.
      Mth (NewMerkleTree [] [0] [1] concat [[1], [2], [3], [4], [5]]) = Some (r, mt1)
    \<and> (if (0::nat) < 2 then Ap mt1 (int 2) = Some (lAp, mt1) else lAp = None)
    \<and> (if 4 < length [[1], [2], [3], [4], [5 :: byte]]
        then Ap mt1 (int 4 - 1) = Some (rAp, mt1) else rAp = None)
    \<and> MthFromRangeAp mt1 (Some (take (4 - 2) (drop 2 [[1], [2], [3], [4], [5]]))) (int 2)
         (int (length [[1], [2], [3], [4], [5 :: byte]])) lAp rAp = Inr r
    \<and> MthFromRangeAp (NewMerkleTree [] [0] [1] concat [])
         (Some (take (4 - 2) (drop 2 [[1], [2], [3], [4], [5]]))) (int 2)
         (int (length [[1], [2], [3], [4], [5 :: byte]])) lAp rAp = Inr r"
    using h f by (intro range_round_trip_amended) simp_all
  then have "\<exists>r mt1 lAp rAp.
      Mth (NewMerkleTree [] [0] [1] concat [[1], [2], [3], [4], [5]]) = Some (r, mt1)
    \<and> Ap mt1 (int 2) = Some (lAp, mt1)
    \<and> Ap mt1 (int 4 - 1) = Some (rAp, mt1)
    \<and> MthFromRangeAp mt1 (Some (take (4 - 2) (drop 2 [[1], [2], [3], [4], [5]]))) (int 2)
         (int (length [[1], [2], [3], [4], [5 :: byte]])) lAp rAp = Inr r
    \<and> MthFromRangeAp (NewMerkleTree [] [0] [1] concat [])
         (Some (take (4 - 2) (drop 2 [[1], [2], [3], [4], [5]]))) (int 2)
         (int (length [[1], [2], [3], [4], [5 :: byte]])) lAp rAp = Inr r"
    by (simp only: c if_True)
  with h f show ?thesis by blast
qed

section \<open>Malformed leaves in Verify\<close>

lemma mkKey_short: "length l < hashLen \<Longrightarrow> mkKey l = []"
  by (simp add: mkKey_def)

text \<open>
  C7, amended. A bracket leaf of fewer than 32 bytes has the empty key. When it is the
  right leaf of a proof, \<open>Verify\<close> returns false for every non-empty query key: the
  query is above the empty key.
\<close>

theorem malformed_bracket_leaf:
  assumes "length l < hashLen"
  shows "mkKey l = []
    \<and> (p_rl p = Some l \<and> K \<noteq> [] \<longrightarrow> \<not> Verify p K a sz snapshot)"
proof -
  have k: "mkKey l = []" using assms by (rule mkKey_short)
  have "\<not> Verify p K a sz snapshot" if "p_rl p = Some l" "K \<noteq> []"
  proof -
    have "K > mkKey l" unfolding k using that(2) by (cases K) simp_all
    then show ?thesis
      unfolding Verify_def using that(1) by (auto split: prod.splits option.splits)
  qed
  with k show ?thesis by blast
qed

theorem malformed_bracket_leaf_witness:
  "length [5 :: byte] < hashLen \<and> mkKey [5] = []
   \<and> \<not> Verify \<lparr>p_hash = concat, p_twc = [], p_index = 0, p_ll = None, p_rl = Some [5],
                 p_lap = None, p_rap = None\<rparr> [9] \<lparr>subject = [], payload = []\<rparr> 1 [0, 5]"
proof -
  have h: "length [5 :: byte] < hashLen" by (simp add: hashLen_def)
  from malformed_bracket_leaf [OF h, of
      "\<lparr>p_hash = concat, p_twc = [], p_index = 0, p_ll = None, p_rl = Some [5],
        p_lap = None, p_rap = None\<rparr>" "[9]" "\<lparr>subject = [], payload = []\<rparr>" 1 "[0, 5]"] h
  show ?thesis by simp
qed

text \<open>
  C7, as stated, fails for the left leaf: no key is below the empty key, so a left leaf of
  fewer than 32 bytes passes both ordering checks. A proof whose left leaf is the single
  byte 5, for a tree of that one leaf, is accepted for the query key 9.
\<close>

theorem malformed_left_leaf_counterexample:
  "length [5 :: byte] < 32 \<and> mkKey [5] = []
   \<and> Verify \<lparr>p_hash = concat, p_twc = [], p_index = 0, p_ll = Some [5], p_rl = None,
               p_lap = None, p_rap = None\<rparr> [9] \<lparr>subject = [], payload = []\<rparr> 1 [0, 5]"
  by code_simp

section \<open>Soundness and completeness of the wildcard tree\<close>

subsection \<open>The two radix trees of NewWildcardTree\<close>

text \<open>The leaf of a key and its payload list.\<close>

definition leaf_of :: "(bytes list \<Rightarrow> bytes) \<Rightarrow> bytes \<times> bytes list \<Rightarrow> bytes" where
  "leaf_of h kp = fst kp @ h (snd kp)"

text \<open>The entries of the second radix tree: every key with its payload and its index.\<close>

fun number :: "int \<Rightarrow> (bytes \<times> bytes list) list \<Rightarrow> (bytes \<times> radixValue) list" where
  "number i [] = []"
| "number i (kp # es) = (fst kp, \<lparr>rv_payload = snd kp, rv_index = i\<rparr>) # number (i + 1) es"

lemma map_fst_number [simp]: "map fst (number i es) = map fst es"
  by (induction es arbitrary: i) simp_all

lemma length_number [simp]: "length (number i es) = length es"
  by (induction es arbitrary: i) simp_all

lemma number_append: "number i (xs @ ys) = number i xs @ number (i + int (length xs)) ys"
  by (induction xs arbitrary: i) (simp_all add: add.assoc)

lemma map_payload_number [simp]: "map (\<lambda>e. rv_payload (snd e)) (number i es) = map snd es"
  by (induction es arbitrary: i) simp_all

lemma number_index_nonneg: "0 \<le> i \<Longrightarrow> e \<in> set (number i es) \<Longrightarrow> 0 \<le> rv_index (snd e)"
proof (induction es arbitrary: i)
  case Nil
  then show ?case by simp
next
  case (Cons kp es)
  have "0 \<le> i + 1" using Cons.prems(1) by simp
  from Cons.IH [OF this] Cons.prems show ?case by auto
qed

lemma filter_number_all:
  "(\<forall>e \<in> set es. Q (fst e)) \<Longrightarrow> filter (\<lambda>(k, v). Q k) (number i es) = number i es"
  by (induction es arbitrary: i) simp_all

lemma filter_number_none:
  "(\<forall>e \<in> set es. \<not> Q (fst e)) \<Longrightarrow> filter (\<lambda>(k, v). Q k) (number i es) = []"
  by (induction es arbitrary: i) simp_all

lemma foldl_NewWildcardTree_visit:
  "foldl (NewWildcardTree_visit h) (tmp, i, d) es
     = (tmp @ number i es, i + int (length es), d @ map (leaf_of h) es)"
proof (induction es arbitrary: tmp i d)
  case Nil
  show ?case by simp
next
  case (Cons kp es)
  have "NewWildcardTree_visit h (tmp, i, d) kp
      = (tmp @ [(fst kp, \<lparr>rv_payload = snd kp, rv_index = i\<rparr>)], i + 1, d @ [leaf_of h kp])"
    by (cases kp) (simp add: NewWildcardTree_visit_def leaf_of_def)
  then show ?case by (simp add: Cons.IH)
qed

lemma radix_WalkPrefix_Nil [simp]: "radix_WalkPrefix r [] = r"
  by (simp add: radix_WalkPrefix_def)

lemma NewWildcardTree_eq:
  "NewWildcardTree twc h m =
     \<lparr>wt_r = number 0 (sort_key fst m),
      wt_mt = NewMerkleTree twc leafPrefix interiorPrefix h (map (leaf_of h) (sort_key fst m))\<rparr>"
proof -
  have s: "sort_key fst (number 0 (sort_key fst m)) = number 0 (sort_key fst m)"
    by (rule sort_key_id_if_sorted) simp
  show ?thesis
    unfolding NewWildcardTree_def Let_def radix_NewFromMap_def radix_WalkPrefix_Nil
      foldl_NewWildcardTree_visit
    by (simp add: s)
qed

text \<open>The walk of \<open>Get\<close>.\<close>

lemma foldl_Get_visit_set:
  assumes "0 \<le> p_index p"
  shows "foldl Get_visit (a, p) es
    = (a\<lparr>subject := subject a @ map fst es,
         payload := payload a @ map (\<lambda>e. rv_payload (snd e)) es\<rparr>, p)"
  using assms
proof (induction es arbitrary: a)
  case Nil
  show ?case by simp
next
  case (Cons e es)
  have "Get_visit (a, p) e
      = (a\<lparr>subject := subject a @ [fst e], payload := payload a @ [rv_payload (snd e)]\<rparr>, p)"
    using Cons.prems by (cases e) (simp add: Get_visit_def)
  then show ?case using Cons.IH [OF Cons.prems] by simp
qed

lemma foldl_Get_visit:
  assumes "p_index p < 0" and "\<forall>e \<in> set es. 0 \<le> rv_index (snd e)"
  shows "foldl Get_visit (a, p) es
    = (a\<lparr>subject := subject a @ map fst es,
         payload := payload a @ map (\<lambda>e. rv_payload (snd e)) es\<rparr>,
       if es = [] then p else p\<lparr>p_index := rv_index (snd (hd es))\<rparr>)"
proof (cases es)
  case Nil
  then show ?thesis by simp
next
  case (Cons e es')
  have 1: "Get_visit (a, p) e
      = (a\<lparr>subject := subject a @ [fst e], payload := payload a @ [rv_payload (snd e)]\<rparr>,
         p\<lparr>p_index := rv_index (snd e)\<rparr>)"
    using assms(1) by (cases e) (simp add: Get_visit_def)
  have "0 \<le> p_index (p\<lparr>p_index := rv_index (snd e)\<rparr>)"
    using assms(2) Cons by simp
  from foldl_Get_visit_set [OF this] 1 show ?thesis unfolding Cons by simp
qed

subsection \<open>Prefixes in the lexicographic order\<close>

text \<open>Keys with a given prefix lie together in the lexicographic order.\<close>

lemma prefix_le: "prefix K (b :: bytes) \<Longrightarrow> K \<le> b"
proof (induction K arbitrary: b)
  case Nil
  show ?case by simp
next
  case (Cons x K)
  then obtain b' where "b = x # b'" "prefix K b'" by (cases b) auto
  with Cons.IH show ?case by simp
qed

lemma prefix_convex:
  assumes "prefix K a" and "prefix K c" and "a \<le> b" and "b \<le> (c :: bytes)"
  shows "prefix K b"
  using assms
proof (induction K arbitrary: a b c)
  case Nil
  show ?case by simp
next
  case (Cons x K)
  from Cons.prems(1) obtain a' where a: "a = x # a'" "prefix K a'" by (cases a) auto
  from Cons.prems(2) obtain c' where c: "c = x # c'" "prefix K c'" by (cases c) auto
  from Cons.prems(3) a obtain y b' where b: "b = y # b'" by (cases b) auto
  from Cons.prems(3,4) have "x = y" "a' \<le> b'" "b' \<le> c'"
    unfolding a c b by auto
  with Cons.IH [OF a(2) c(2)] show ?case unfolding b by simp
qed

lemma below_prefix_block:
  assumes "a < b" and "prefix K b" and "\<not> prefix K (a :: bytes)"
  shows "a < K"
proof (rule ccontr)
  assume "\<not> a < K"
  then have "K \<le> a" by simp
  have "prefix K K" by simp
  moreover have "a \<le> b" using assms(1) by simp
  ultimately have "prefix K a" using assms(2) \<open>K \<le> a\<close> by (intro prefix_convex [of K K b a])
  with assms(3) show False by simp
qed

text \<open>
  A list sorted by key falls into the entries before the matches, the matches, and the
  entries after them.
\<close>

lemma sorted_convex_blocks:
  fixes es :: "(bytes \<times> 'v) list"
  assumes s: "sorted (map fst es)"
    and cv: "\<forall>a b c. Q a \<and> Q c \<and> a \<le> b \<and> b \<le> c \<longrightarrow> Q b"
  shows "\<exists>A B C. es = A @ B @ C \<and> (\<forall>e \<in> set A. \<not> Q (fst e)) \<and> (\<forall>e \<in> set B. Q (fst e))
    \<and> (\<forall>e \<in> set C. \<not> Q (fst e))"
proof -
  define A where "A = takeWhile (\<lambda>e. \<not> Q (fst e)) es"
  define rest where "rest = dropWhile (\<lambda>e. \<not> Q (fst e)) es"
  define B where "B = takeWhile (\<lambda>e. Q (fst e)) rest"
  define C where "C = dropWhile (\<lambda>e. Q (fst e)) rest"
  have es: "es = A @ B @ C" unfolding A_def B_def C_def rest_def by simp
  have a: "\<forall>e \<in> set A. \<not> Q (fst e)" unfolding A_def by (auto dest: set_takeWhileD)
  have b: "\<forall>e \<in> set B. Q (fst e)" unfolding B_def by (auto dest: set_takeWhileD)
  have c: "\<forall>e \<in> set C. \<not> Q (fst e)"
  proof (cases C)
    case Nil
    then show ?thesis by simp
  next
    case (Cons c0 C')
    have c0: "\<not> Q (fst c0)"
      using hd_dropWhile [of "\<lambda>e. Q (fst e)" rest] Cons unfolding C_def by auto
    have BC: "B @ C = rest" unfolding B_def C_def by simp
    have "B \<noteq> []"
    proof
      assume "B = []"
      with BC have rc: "rest = C" by simp
      then have "rest \<noteq> []" using Cons by simp
      then have "Q (fst (hd rest))"
        unfolding rest_def using hd_dropWhile [of "\<lambda>e. \<not> Q (fst e)" es] by simp
      with c0 rc Cons show False by simp
    qed
    then obtain b0 where b0: "b0 \<in> set B" by (cases B) auto
    with b have qb: "Q (fst b0)" by simp
    have s1: "sorted (map fst A @ map fst B @ map fst C)"
      using s unfolding es by simp
    then have s2: "sorted (map fst B @ map fst C)"
      by (simp add: sorted_append)
    then have s3: "sorted (map fst C)" and s4: "\<forall>x \<in> set (map fst B). \<forall>y \<in> set (map fst C). x \<le> y"
      by (simp_all add: sorted_append)
    have le1: "fst b0 \<le> fst c0" using s4 b0 unfolding Cons by simp
    have le2: "\<forall>e \<in> set C'. fst c0 \<le> fst e" using s3 unfolding Cons by simp
    have "\<not> Q (fst e)" if "e \<in> set C'" for e
    proof
      assume "Q (fst e)"
      have "fst c0 \<le> fst e" using le2 that by simp
      with qb \<open>Q (fst e)\<close> le1 have "Q (fst b0) \<and> Q (fst e) \<and> fst b0 \<le> fst c0 \<and> fst c0 \<le> fst e"
        by simp
      with cv have "Q (fst c0)" by blast
      with c0 show False by simp
    qed
    with c0 show ?thesis unfolding Cons by simp
  qed
  from es a b c show ?thesis by blast
qed

subsection \<open>Binary search\<close>

text \<open>Binary search over a predicate that, once true, stays true.\<close>

definition search_post :: "int \<Rightarrow> (int \<Rightarrow> bool) \<Rightarrow> int \<Rightarrow> bool" where
  "search_post n f r \<longleftrightarrow>
     0 \<le> r \<and> r \<le> n \<and> (\<forall>x. 0 \<le> x \<and> x < r \<longrightarrow> \<not> f x) \<and> (\<forall>x. r \<le> x \<and> x < n \<longrightarrow> f x)"

lemma Search_loop_correct:
  assumes "0 \<le> i" and "i \<le> j" and "j \<le> n"
    and mono: "\<forall>x y. 0 \<le> x \<and> x \<le> y \<and> y < n \<and> f x \<longrightarrow> f y"
    and "\<forall>x. 0 \<le> x \<and> x < i \<longrightarrow> \<not> f x" and "\<forall>x. j \<le> x \<and> x < n \<longrightarrow> f x"
  shows "search_post n f (Search_loop f i j)"
  using assms
proof (induction f i j rule: Search_loop.induct)
  case (1 f i j)
  show ?case
  proof (cases "i < j")
    case False
    then have ij: "i = j" using "1.prems"(2) by simp
    have e: "Search_loop f i j = i" using False by (subst Search_loop.simps) simp
    show ?thesis unfolding e search_post_def
      using "1.prems"(1,3,5,6) unfolding ij by blast
  next
    case True
    define h where "h = (i + j) div 2"
    have h: "i \<le> h" "h < j" using True unfolding h_def by simp_all
    have h0: "0 \<le> h" "h < n" using h "1.prems"(1,3) by simp_all
    show ?thesis
    proof (cases "f h")
      case fh: True
      have e: "Search_loop f i j = Search_loop f i h"
        using True fh by (subst Search_loop.simps) (simp add: h_def Let_def)
      have up: "\<forall>x. h \<le> x \<and> x < n \<longrightarrow> f x"
      proof (intro allI impI)
        fix x assume "h \<le> x \<and> x < n"
        with h0 fh have "0 \<le> h \<and> h \<le> x \<and> x < n \<and> f h" by simp
        with "1.prems"(4) show "f x" by blast
      qed
      have "search_post n f (Search_loop f i h)"
      proof (rule "1.IH"(2) [OF True h_def])
        show "\<not> \<not> f h" using fh by simp
        show "0 \<le> i" by (rule "1.prems"(1))
        show "i \<le> h" by (rule h(1))
        show "h \<le> n" using h0 by simp
        show "\<forall>x y. 0 \<le> x \<and> x \<le> y \<and> y < n \<and> f x \<longrightarrow> f y" by (rule "1.prems"(4))
        show "\<forall>x. 0 \<le> x \<and> x < i \<longrightarrow> \<not> f x" by (rule "1.prems"(5))
        show "\<forall>x. h \<le> x \<and> x < n \<longrightarrow> f x" by (rule up)
      qed
      then show ?thesis unfolding e .
    next
      case nfh: False
      have e: "Search_loop f i j = Search_loop f (h + 1) j"
        using True nfh by (subst Search_loop.simps) (simp add: h_def Let_def)
      have lo: "\<forall>x. 0 \<le> x \<and> x < h + 1 \<longrightarrow> \<not> f x"
      proof (intro allI impI notI)
        fix x assume a: "0 \<le> x \<and> x < h + 1" and "f x"
        then have "0 \<le> x \<and> x \<le> h \<and> h < n \<and> f x" using h0 by simp
        with "1.prems"(4) have "f h" by blast
        with nfh show False by simp
      qed
      have "search_post n f (Search_loop f (h + 1) j)"
      proof (rule "1.IH"(1) [OF True h_def])
        show "\<not> f h" by (rule nfh)
        show "0 \<le> h + 1" using h0 by simp
        show "h + 1 \<le> j" using h by simp
        show "j \<le> n" by (rule "1.prems"(3))
        show "\<forall>x y. 0 \<le> x \<and> x \<le> y \<and> y < n \<and> f x \<longrightarrow> f y" by (rule "1.prems"(4))
        show "\<forall>x. 0 \<le> x \<and> x < h + 1 \<longrightarrow> \<not> f x" by (rule lo)
        show "\<forall>x. j \<le> x \<and> x < n \<longrightarrow> f x" by (rule "1.prems"(6))
      qed
      then show ?thesis unfolding e .
    qed
  qed
qed

lemma Search_correct:
  assumes "0 \<le> n"
    and "\<forall>x y. 0 \<le> x \<and> x \<le> y \<and> y < n \<and> f x \<longrightarrow> f y"
  shows "search_post n f (Search n f)"
  unfolding Search_def
proof (rule Search_loop_correct [OF _ assms(1) _ assms(2)])
  show "(0::int) \<le> 0" by simp
  show "n \<le> n" by simp
  show "\<forall>x. 0 \<le> x \<and> x < (0::int) \<longrightarrow> \<not> f x" by auto
  show "\<forall>x. n \<le> x \<and> x < n \<longrightarrow> f x" by auto
qed

subsection \<open>What Verify rebuilds\<close>

text \<open>No node of the tree has two children with the same digest.\<close>

function distinct_siblings :: "(bytes list \<Rightarrow> bytes) \<Rightarrow> bytes list \<Rightarrow> bool" where
  "distinct_siblings rt data =
     (if length data \<le> 1 then True
      else rt (take (cut data) data) \<noteq> rt (drop (cut data) data)
         \<and> distinct_siblings rt (take (cut data) data)
         \<and> distinct_siblings rt (drop (cut data) data))"
  by pat_completeness auto
termination
proof (relation "measure (\<lambda>(rt, data). length data)")
  show "wf (measure (\<lambda>(rt, data). length data))" by simp
next
  fix rt :: "bytes list \<Rightarrow> bytes" and data :: "bytes list"
  assume "\<not> length data \<le> 1"
  then have "2 \<le> length data" by linarith
  from cut_bounds [OF this]
  show "((rt, take (cut data) data), (rt, data)) \<in> measure (\<lambda>(rt, data). length data)"
    by simp
next
  fix rt :: "bytes list \<Rightarrow> bytes" and data :: "bytes list"
  assume "\<not> length data \<le> 1"
  then have "2 \<le> length data" by linarith
  from cut_bounds [OF this]
  show "((rt, drop (cut data) data), (rt, data)) \<in> measure (\<lambda>(rt, data). length data)"
    by simp
qed

declare distinct_siblings.simps [simp del]

lemma distinct_siblings_fork:
  "distinct_siblings rt data \<Longrightarrow> fork_distinct rt i j data"
proof (induction data arbitrary: i j rule: length_induct)
  case (1 data)
  show ?case
  proof (cases "length data \<le> 1")
    case True
    then show ?thesis by (subst fork_distinct.simps) simp
  next
    case False
    then have n: "2 \<le> length data" by linarith
    note cb = cut_bounds [OF n]
    from "1.prems" False have d: "rt (take (cut data) data) \<noteq> rt (drop (cut data) data)"
      "distinct_siblings rt (take (cut data) data)" "distinct_siblings rt (drop (cut data) data)"
      by (subst (asm) distinct_siblings.simps, simp)+
    have l: "fork_distinct rt i j (take (cut data) data)" for i j
      using "1.IH" d(2) cb by simp
    have r: "fork_distinct rt i j (drop (cut data) data)" for i j
      using "1.IH" d(3) cb by simp
    show ?thesis
      by (subst fork_distinct.simps) (simp add: False l r d(1))
  qed
qed

text \<open>The key of a leaf whose digest has \<open>hashLen\<close> bytes.\<close>

lemma mkKey_leaf_of: "length (h (snd kp)) = hashLen \<Longrightarrow> mkKey (leaf_of h kp) = fst kp"
  by (simp add: mkKey_def leaf_of_def)

text \<open>The loop of \<open>mkLeafData\<close> on subjects in strictly ascending order.\<close>

definition extend :: "'a list option \<Rightarrow> 'a list \<Rightarrow> 'a list option" where
  "extend d xs = (if xs = [] then d else Some (entries d @ xs))"

lemma extend_Nil [simp]: "extend d [] = d"
  by (simp add: extend_def)

lemma extend_Cons: "extend d (x # xs) = extend (append_go d x) xs"
  by (cases d) (simp_all add: extend_def)

lemma mkLeafData_loop_sorted:
  assumes "sorted_wrt (<) (subject a)" and "k \<le> length (subject a)"
  shows "mkLeafData_loop p a k d
    = (extend d (map (\<lambda>i. subject a ! i @ p_hash p (payload a ! i)) [k ..< length (subject a)]), True)"
  using assms(2)
proof (induction "length (subject a) - k" arbitrary: k d)
  case 0
  then have "k = length (subject a)" by simp
  then show ?case by (subst mkLeafData_loop.simps) simp
next
  case (Suc x)
  then have k: "k < length (subject a)" by simp
  have o: "\<not> (0 < k \<and> subject a ! (k - 1) \<ge> subject a ! k)"
  proof
    assume c: "0 < k \<and> subject a ! (k - 1) \<ge> subject a ! k"
    then have "k - 1 < k" by simp
    from sorted_wrt_nth_less [OF assms(1) this k]
    have "subject a ! (k - 1) < subject a ! k" .
    moreover from c have "subject a ! k \<le> subject a ! (k - 1)" by simp
    ultimately show False by (rule leD [rotated, THEN notE, rotated]) 
  qed
  have u: "[k ..< length (subject a)] = k # [k + 1 ..< length (subject a)]"
    using k by (simp add: upt_conv_Cons)
  have "mkLeafData_loop p a k d
      = mkLeafData_loop p a (k + 1) (append_go d (subject a ! k @ p_hash p (payload a ! k)))"
    by (subst mkLeafData_loop.simps) (simp only: k o if_True if_False)
  also have "\<dots> = (extend (append_go d (subject a ! k @ p_hash p (payload a ! k)))
      (map (\<lambda>i. subject a ! i @ p_hash p (payload a ! i)) [k + 1 ..< length (subject a)]), True)"
    using Suc.hyps(2) k by (intro Suc.hyps(1)) simp_all
  finally show ?case unfolding u by (simp only: list.map extend_Cons)
qed

lemma extend_slice_of: "extend (slice_of xs) ys = slice_of (xs @ ys)"
  by (simp add: extend_def slice_of_def)

lemma sorted_keys_less:
  assumes "sorted_wrt (<) (map fst es)" and "x < y" and "y < length es"
  shows "fst (es ! x) < fst (es ! y)"
proof -
  have "map fst es ! x < map fst es ! y"
    using assms by (intro sorted_wrt_nth_less) simp_all
  then show ?thesis using assms by simp
qed

text \<open>
  The leaves \<open>mkLeafData\<close> rebuilds for the bracket leaves \<open>a - 1\<close> and \<open>a + b\<close> (where the
  tree has them) and the \<open>b\<close> subjects between them.
\<close>

lemma mkLeafData_range:
  fixes es :: "(bytes \<times> bytes list) list" and p :: Proof
  defines "T \<equiv> map (leaf_of (p_hash p)) es"
  assumes s: "sorted_wrt (<) (map fst es)"
    and hl: "\<forall>kp \<in> set es. length (p_hash p (snd kp)) = hashLen"
    and ab: "a + b \<le> length es"
    and ll: "p_ll p = (if 0 < a then Some (T ! (a - 1)) else None)"
    and rl: "p_rl p = (if a + b < length es then Some (T ! (a + b)) else None)"
    and sj: "subject an = map fst (take b (drop a es))"
    and pl: "payload an = map snd (take b (drop a es))"
  shows "mkLeafData p an =
    (slice_of ((if 0 < a then [T ! (a - 1)] else []) @ take b (drop a T)
        @ (if a + b < length es then [T ! (a + b)] else [])), True)"
proof -
  let ?B = "take b (drop a es)"
  have lB: "length ?B = b" using ab by simp
  have n: "length (subject an) = b" "length (payload an) = b" unfolding sj pl using lB by simp_all
  have ss: "sorted_wrt (<) (subject an)"
  proof -
    have "sorted_wrt (<) (take b (drop a (map fst es)))"
      by (intro sorted_wrt_take sorted_wrt_drop s)
    then show ?thesis unfolding sj by (simp add: take_map drop_map)
  qed
  have key: "mkKey (T ! x) = fst (es ! x)" if "x < length es" for x
  proof -
    have "es ! x \<in> set es" using that by simp
    with hl have "length (p_hash p (snd (es ! x))) = hashLen" by blast
    then have "mkKey (leaf_of (p_hash p) (es ! x)) = fst (es ! x)" by (rule mkKey_leaf_of)
    then show ?thesis unfolding T_def using that by simp
  qed
  have sub: "subject an ! x = fst (es ! (a + x))" if "x < b" for x
    unfolding sj using that ab by simp
  have leaves: "map (\<lambda>i. subject an ! i @ p_hash p (payload an ! i)) [0 ..< length (subject an)]
      = take b (drop a T)"
  proof (rule nth_equalityI)
    show "length (map (\<lambda>i. subject an ! i @ p_hash p (payload an ! i)) [0 ..< length (subject an)])
        = length (take b (drop a T))"
      using n ab unfolding T_def by simp
  next
    fix x assume "x < length (map (\<lambda>i. subject an ! i @ p_hash p (payload an ! i)) [0 ..< length (subject an)])"
    then have x: "x < b" using n by simp
    then have "subject an ! x = fst (?B ! x)" "payload an ! x = snd (?B ! x)"
      unfolding sj pl using lB by simp_all
    moreover have "take b (drop a T) ! x = leaf_of (p_hash p) (?B ! x)"
      unfolding T_def using x lB by (simp add: take_map [symmetric] drop_map [symmetric])
    ultimately show "map (\<lambda>i. subject an ! i @ p_hash p (payload an ! i)) [0 ..< length (subject an)] ! x
        = take b (drop a T) ! x"
      using x n by (simp add: leaf_of_def)
  qed
  define L where "L = (if 0 < a then [T ! (a - 1)] else [])"
  define R where "R = (if a + b < length es then [T ! (a + b)] else [])"
  have left: "(case p_ll p of None \<Rightarrow> Some None
      | Some l \<Rightarrow> if length (subject an) > 0 \<and> mkKey l > subject an ! 0 then None
                  else Some (append_go None l)) = Some (slice_of L)"
  proof (cases "0 < a")
    case False
    then show ?thesis unfolding ll L_def by simp
  next
    case True
    have "\<not> (0 < b \<and> subject an ! 0 < mkKey (T ! (a - 1)))"
    proof
      assume c: "0 < b \<and> subject an ! 0 < mkKey (T ! (a - 1))"
      then have "a < length es" using ab by simp
      from sorted_keys_less [OF s _ this, of "a - 1"] True
      have "fst (es ! (a - 1)) < fst (es ! a)" by simp
      moreover have "fst (es ! a) < fst (es ! (a - 1))"
        using c sub [of 0] key [of "a - 1"] True ab by simp
      ultimately show False by (rule less_asym)
    qed
    then show ?thesis unfolding ll L_def n using True by (simp add: slice_of_def)
  qed
  have loop: "mkLeafData_loop p an 0 (slice_of L) = (slice_of (L @ take b (drop a T)), True)"
    using mkLeafData_loop_sorted [OF ss, of 0 p "slice_of L"]
    unfolding leaves extend_slice_of by simp
  have right: "(case p_rl p of None \<Rightarrow> (slice_of (L @ take b (drop a T)), True)
      | Some r \<Rightarrow> if length (subject an) > 0 \<and> mkKey r < subject an ! (length (subject an) - 1)
                  then (None, False)
                  else (append_go (slice_of (L @ take b (drop a T))) r, True))
      = (slice_of (L @ take b (drop a T) @ R), True)"
  proof (cases "a + b < length es")
    case False
    then show ?thesis unfolding rl R_def by simp
  next
    case True
    have "\<not> (0 < b \<and> mkKey (T ! (a + b)) < subject an ! (b - 1))"
    proof
      assume c: "0 < b \<and> mkKey (T ! (a + b)) < subject an ! (b - 1)"
      from sorted_keys_less [OF s _ True, of "a + (b - 1)"] c
      have "fst (es ! (a + (b - 1))) < fst (es ! (a + b))" by simp
      moreover have "fst (es ! (a + b)) < fst (es ! (a + (b - 1)))"
        using c sub [of "b - 1"] key [OF True] by simp
      ultimately show False by (rule less_asym)
    qed
    then show ?thesis unfolding rl R_def n using True
      by (simp add: slice_of_def)
  qed
  have len: "(length (subject an) \<noteq> length (payload an)) = False" using n by simp
  have "mkLeafData p an = (slice_of (L @ take b (drop a T) @ R), True)"
    unfolding mkLeafData_def Let_def len if_False left option.case loop prod.case
      not_True_eq_False right ..
  then show ?thesis unfolding L_def R_def .
qed

lemma take_Suc_drop:
  assumes "a + b < length T"
  shows "take (Suc b) (drop a T) = take b (drop a T) @ [T ! (a + b)]"
proof -
  have "b < length (drop a T)" using assms by simp
  from take_Suc_conv_app_nth [OF this] show ?thesis using assms by simp
qed

lemma bracket_slice:
  assumes "a + b \<le> length T"
  shows "(if 0 < a then [T ! (a - 1)] else []) @ take b (drop a T)
        @ (if a + b < length T then [T ! (a + b)] else [])
    = take (a + b + (if a + b < length T then 1 else 0) - (a - 1)) (drop (a - 1) T)"
proof -
  have mid: "take b (drop a T) @ (if a + b < length T then [T ! (a + b)] else [])
      = take (b + (if a + b < length T then 1 else 0)) (drop a T)"
    using take_Suc_drop [of a b T] by simp
  show ?thesis
  proof (cases "0 < a")
    case False
    then show ?thesis using mid by simp
  next
    case True
    then have a: "a - 1 < length T" "Suc (a - 1) = a" using assms by simp_all
    have d: "drop (a - 1) T = T ! (a - 1) # drop a T"
      using Cons_nth_drop_Suc [OF a(1)] unfolding a(2) by simp
    have e: "a + b + (if a + b < length T then 1 else 0) - (a - 1)
        = Suc (b + (if a + b < length T then 1 else 0))"
      using True by simp
    show ?thesis unfolding d e using True mid by simp
  qed
qed

text \<open>
  \<open>Verify\<close> on the proof that presents the bracket leaves \<open>a - 1\<close> and \<open>a + b\<close> (where the
  tree has them), with their audit paths, around the \<open>b\<close> subjects from \<open>a\<close> on: it accepts
  the head of the tree and no other snapshot.
\<close>

lemma Verify_accepts:
  fixes es :: "(bytes \<times> bytes list) list" and p :: Proof
  defines "T \<equiv> map (leaf_of (p_hash p)) es"
    and "rt \<equiv> mth_spec (p_hash p) (p_twc p) leafPrefix interiorPrefix"
  assumes s: "sorted_wrt (<) (map fst es)"
    and hl: "\<forall>kp \<in> set es. length (p_hash p (snd kp)) = hashLen"
    and ne: "es \<noteq> []"
    and sz: "int (length es) < 2 ^ 63"
    and ab: "a + b \<le> length es"
    and ds: "distinct_siblings rt T"
    and kl: "0 < a \<Longrightarrow> \<not> K < fst (es ! (a - 1))"
    and kr: "a + b < length es \<Longrightarrow> \<not> fst (es ! (a + b)) < K"
    and ix: "p_index p = int (a - 1)"
    and ll: "p_ll p = (if 0 < a then Some (T ! (a - 1)) else None)"
    and rl: "p_rl p = (if a + b < length es then Some (T ! (a + b)) else None)"
    and lap: "p_lap p = (if 0 < a then slice_of (path_of rt (a - 1) T) else None)"
    and rap: "p_rap p = (if a + b < length es then slice_of (path_of rt (a + b) T) else None)"
    and sj: "subject an = map fst (take b (drop a es))"
    and pl: "payload an = map snd (take b (drop a es))"
  shows "Verify p K an (int (length es)) snap \<longleftrightarrow> snap = rt T"
proof -
  define mt where "mt = NewMerkleTree (p_twc p) leafPrefix interiorPrefix (p_hash p) []"
  have rm: "root mt = rt" unfolding mt_def rt_def by simp
  have pt: "path_to mt x T = path_of rt x T" for x unfolding path_to_def rm ..
  have lT: "length T = length es" unfolding T_def by simp
  define i where "i = a - 1"
  define j where "j = a + b + (if a + b < length es then 1 else 0)"
  have n0: "0 < length es" using ne by simp
  have ij: "i < j" "j \<le> length T"
  proof -
    show "j \<le> length T" unfolding j_def lT using ab by simp
    show "i < j"
    proof (cases "a + b < length es")
      case True
      then show ?thesis unfolding i_def j_def by simp
    next
      case False
      with ab n0 have "0 < a + b" by linarith
      then show ?thesis unfolding i_def j_def by linarith
    qed
  qed
  have lb: "length (subject an) = b" unfolding sj using ab by simp
  have ind: "indices p an = (int i, int j - 1)"
    unfolding indices_def Let_def ix ll rl lb i_def j_def by (auto split: if_splits)
  have c1: "\<not> ((p_ll p = None \<and> int i > 0) \<or> (p_rl p = None \<and> int j - 1 + 1 < int (length es)))"
    unfolding ll rl i_def j_def using ab by (auto split: if_splits)
  have key: "mkKey (T ! x) = fst (es ! x)" if "x < length es" for x
  proof -
    have "es ! x \<in> set es" using that by simp
    with hl have "length (p_hash p (snd (es ! x))) = hashLen" by blast
    then have "mkKey (leaf_of (p_hash p) (es ! x)) = fst (es ! x)" by (rule mkKey_leaf_of)
    then show ?thesis unfolding T_def using that by simp
  qed
  have c2l: "\<not> (case p_ll p of None \<Rightarrow> False | Some l \<Rightarrow> K < mkKey l)"
  proof (cases "0 < a")
    case False
    then show ?thesis unfolding ll by simp
  next
    case True
    then have "a - 1 < length es" using ab by simp
    from key [OF this] kl [OF True] show ?thesis unfolding ll using True by simp
  qed
  have c2r: "\<not> (case p_rl p of None \<Rightarrow> False | Some r \<Rightarrow> K > mkKey r)"
  proof (cases "a + b < length es")
    case False
    then show ?thesis unfolding rl by simp
  next
    case True
    from key [OF this] kr [OF True] show ?thesis unfolding rl using True by simp
  qed
  have c2: "\<not> ((case p_ll p of None \<Rightarrow> False | Some l \<Rightarrow> K < mkKey l)
      \<or> (case p_rl p of None \<Rightarrow> False | Some r \<Rightarrow> K > mkKey r))"
    using c2l c2r by simp
  have sl: "(if 0 < a then [T ! (a - 1)] else []) @ take b (drop a T)
        @ (if a + b < length es then [T ! (a + b)] else []) = take (j - i) (drop i T)"
    using bracket_slice [of a b T] ab unfolding lT i_def j_def by simp
  have "take (j - i) (drop i T) \<noteq> []" using ij by simp
  then have so: "slice_of (take (j - i) (drop i T)) = Some (take (j - i) (drop i T))"
    by (simp add: slice_of_def)
  have mk: "mkLeafData p an = (Some (take (j - i) (drop i T)), True)"
    using mkLeafData_range [OF s hl ab _ _ sj pl] ll rl
    unfolding T_def [symmetric] sl so by simp
  have rng: "MthFromRangeAp mt (Some (take (j - i) (drop i T))) (int i) (int (length T))
      (p_lap p) (p_rap p) = Inr (root mt T)"
  proof (cases "length T = 1")
    case True
    then obtain x where T: "T = [x]" by (cases T) auto
    have a: "i = 0" "j = 1" using ij True by simp_all
    have "path_of rt y T = []" for y
      using path_to_leaf [of T mt y] pt True by simp
    then have "p_lap p = None" "p_rap p = None" unfolding lap rap by simp_all
    then show ?thesis unfolding a T using MthFromRangeAp_single [of mt x] by simp
  next
    case False
    with n0 lT have n: "2 \<le> length T" by linarith
    have pn: "slice_of (path_of rt y T) = Some (path_to mt y T)" for y
      using path_to_nonempty [OF n, of mt y] unfolding pt by (simp add: slice_of_def)
    have e: "i + 2 \<le> j \<or> i = 0 \<or> j = length T"
      unfolding i_def j_def lT using ab by (auto split: if_splits)
    have l: "p_lap p = None \<and> i = 0 \<or> p_lap p = Some (path_to mt i T)"
      unfolding lap pn i_def by simp
    have r: "p_rap p = None \<and> j = length T \<or> p_rap p = Some (path_to mt (j - 1) T)"
      unfolding rap pn j_def lT using ab by simp
    have b: "i + 2 \<le> j \<and> fork_distinct (root mt) i j T" if "p_lap p \<noteq> None" "p_rap p \<noteq> None"
    proof
      from that show "i + 2 \<le> j" unfolding lap rap i_def j_def by (auto split: if_splits)
      show "fork_distinct (root mt) i j T" unfolding rm using ds by (rule distinct_siblings_fork)
    qed
    have sz': "int (length T) < 2 ^ 63" using sz unfolding lT .
    show ?thesis using n sz' ij e l r b by (rule MthFromRangeAp_range)
  qed
  have rng': "MthFromRangeAp mt (Some (take (j - i) (drop i T))) (int i) (int (length es))
      (p_lap p) (p_rap p) = Inr (rt T)"
    using rng unfolding rm lT .
  show ?thesis
    unfolding Verify_def ind prod.case
    using c1 c2 mk rng' unfolding mt_def
    by (simp only: if_False prod.case not_True_eq_False Let_def sum.case)
qed

lemma Search_loop_range: "i \<le> j \<Longrightarrow> i \<le> Search_loop f i j \<and> Search_loop f i j \<le> j"
proof (induction f i j rule: Search_loop.induct)
  case (1 f i j)
  show ?case
  proof (cases "i < j")
    case False
    then show ?thesis using "1.prems" by (subst (1 2) Search_loop.simps) simp
  next
    case True
    define h where "h = (i + j) div 2"
    have h: "i \<le> h" "h < j" using True unfolding h_def by simp_all
    show ?thesis
    proof (cases "f h")
      case fh: True
      have e: "Search_loop f i j = Search_loop f i h"
        using True fh by (subst Search_loop.simps) (simp add: h_def Let_def)
      have "i \<le> Search_loop f i h \<and> Search_loop f i h \<le> h"
      proof (rule "1.IH"(2) [OF True h_def])
        show "\<not> \<not> f h" using fh by simp
        show "i \<le> h" by (rule h(1))
      qed
      then show ?thesis unfolding e using h by simp
    next
      case nfh: False
      have e: "Search_loop f i j = Search_loop f (h + 1) j"
        using True nfh by (subst Search_loop.simps) (simp add: h_def Let_def)
      have "h + 1 \<le> Search_loop f (h + 1) j \<and> Search_loop f (h + 1) j \<le> j"
      proof (rule "1.IH"(1) [OF True h_def])
        show "\<not> f h" by (rule nfh)
        show "h + 1 \<le> j" using h by simp
      qed
      then show ?thesis unfolding e using h by simp
    qed
  qed
qed

lemma Search_range: "0 \<le> n \<Longrightarrow> 0 \<le> Search n f \<and> Search n f \<le> n"
  unfolding Search_def by (rule Search_loop_range)

subsection \<open>What Get returns\<close>

text \<open>The walk of \<open>Get\<close> over the numbered entries.\<close>

lemma walk_number:
  fixes es :: "(bytes \<times> bytes list) list"
  assumes s: "sorted (map fst es)"
  shows "\<exists>a. a + length (filter (\<lambda>kp. prefix K (fst kp)) es) \<le> length es
    \<and> filter (\<lambda>kp. prefix K (fst kp)) es
        = take (length (filter (\<lambda>kp. prefix K (fst kp)) es)) (drop a es)
    \<and> radix_WalkPrefix (number 0 es) K = number (int a) (filter (\<lambda>kp. prefix K (fst kp)) es)
    \<and> (\<forall>x < a. \<not> prefix K (fst (es ! x)))"
proof -
  have cv: "\<forall>a b c :: bytes. prefix K a \<and> prefix K c \<and> a \<le> b \<and> b \<le> c \<longrightarrow> prefix K b"
  proof (intro allI impI)
    fix a b c :: bytes
    assume "prefix K a \<and> prefix K c \<and> a \<le> b \<and> b \<le> c"
    then have "prefix K a" "prefix K c" "a \<le> b" "b \<le> c" by simp_all
    then show "prefix K b" by (rule prefix_convex)
  qed
  have "\<exists>A B C. es = A @ B @ C \<and> (\<forall>e \<in> set A. \<not> prefix K (fst e))
    \<and> (\<forall>e \<in> set B. prefix K (fst e)) \<and> (\<forall>e \<in> set C. \<not> prefix K (fst e))"
    by (rule sorted_convex_blocks [where Q = "prefix K" and es = es, OF s cv])
  then obtain A where "\<exists>B C. es = A @ B @ C \<and> (\<forall>e \<in> set A. \<not> prefix K (fst e))
    \<and> (\<forall>e \<in> set B. prefix K (fst e)) \<and> (\<forall>e \<in> set C. \<not> prefix K (fst e))" ..
  then obtain B where "\<exists>C. es = A @ B @ C \<and> (\<forall>e \<in> set A. \<not> prefix K (fst e))
    \<and> (\<forall>e \<in> set B. prefix K (fst e)) \<and> (\<forall>e \<in> set C. \<not> prefix K (fst e))" ..
  then obtain C where abc: "es = A @ B @ C \<and> (\<forall>e \<in> set A. \<not> prefix K (fst e))
    \<and> (\<forall>e \<in> set B. prefix K (fst e)) \<and> (\<forall>e \<in> set C. \<not> prefix K (fst e))" ..
  from abc have es: "es = A @ B @ C" by (rule conjunct1)
  from abc have a: "\<forall>e \<in> set A. \<not> prefix K (fst e)" by blast
  from abc have b: "\<forall>e \<in> set B. prefix K (fst e)"
    by blast
  from abc have c: "\<forall>e \<in> set C. \<not> prefix K (fst e)"
    by blast
  have fA: "filter (\<lambda>kp. prefix K (fst kp)) A = []" using a by (simp add: filter_empty_conv)
  have fB: "filter (\<lambda>kp. prefix K (fst kp)) B = B" using b by (simp add: filter_id_conv)
  have fC: "filter (\<lambda>kp. prefix K (fst kp)) C = []" using c by (simp add: filter_empty_conv)
  have f: "filter (\<lambda>kp. prefix K (fst kp)) es = B" unfolding es by (simp add: fA fB fC)
  have 1: "length A + length B \<le> length es" unfolding es by simp
  have 2: "B = take (length B) (drop (length A) es)" unfolding es by simp
  have nA: "filter (\<lambda>(k, v). prefix K k) (number i A) = []" for i
    using a by (rule filter_number_none)
  have nB: "filter (\<lambda>(k, v). prefix K k) (number i B) = number i B" for i
    using b by (rule filter_number_all)
  have nC: "filter (\<lambda>(k, v). prefix K k) (number i C) = []" for i
    using c by (rule filter_number_none)
  have nes: "number 0 es = number 0 A @ number (int (length A)) B
      @ number (int (length A) + int (length B)) C"
    unfolding es by (simp only: number_append add_0)
  have 3: "radix_WalkPrefix (number 0 es) K = number (int (length A)) B"
    unfolding radix_WalkPrefix_def nes filter_append nA nB nC by simp
  have 4: "\<forall>x < length A. \<not> prefix K (fst (es ! x))"
    using a unfolding es by (simp add: nth_append)
  show ?thesis unfolding f by (rule exI [of _ "length A"]) (intro conjI 1 2 3 4)
qed

lemma hd_number: "es \<noteq> [] \<Longrightarrow> rv_index (snd (hd (number i es))) = i"
  by (cases es) simp_all

lemma number_eq_Nil [simp]: "number i es = [] \<longleftrightarrow> es = []"
  by (cases es) simp_all

text \<open>\<open>Get\<close> on a tree whose cache \<open>Mth\<close> has filled.\<close>

lemma Get_warm:
  fixes wt :: WildcardTree and es :: "(bytes \<times> bytes list) list" and K :: bytes
  defines "B \<equiv> filter (\<lambda>kp. prefix K (fst kp)) es"
  assumes s: "sorted (map fst es)" and r: "wt_r wt = number 0 es" and m: "wt_mt wt = mt"
    and d: "mt_data mt = T" and lT: "length T = length es" and w: "warm mt" and ne: "es \<noteq> []"
  shows "\<exists>p a. Get wt K = Some (\<lparr>subject = map fst B, payload = map snd B\<rparr>, p, wt)
      \<and> a + length B \<le> length es \<and> B = take (length B) (drop a es)
      \<and> p_hash p = mt_hash mt \<and> p_twc p = mt_twc mt \<and> p_index p = int (a - 1)
      \<and> p_ll p = (if 0 < a then Some (T ! (a - 1)) else None)
      \<and> p_rl p = (if a + length B < length es then Some (T ! (a + length B)) else None)
      \<and> p_lap p = (if 0 < a then slice_of (path_to mt (a - 1) T) else None)
      \<and> p_rap p = (if a + length B < length es then slice_of (path_to mt (a + length B) T)
                    else None)
      \<and> (if B = [] then int a = Search (int (length es)) (\<lambda>i. K \<le> mkKey (T ! nat i))
          else (\<forall>x < a. \<not> prefix K (fst (es ! x))))"
proof -
  define answer0 where "answer0 = \<lparr>subject = [], payload = []\<rparr>"
  define proof0 where "proof0 = \<lparr>p_hash = mt_hash mt, p_twc = mt_twc mt, p_index = - 1,
    p_ll = None, p_rl = None, p_lap = None, p_rap = None\<rparr>"
  define ans where "ans = \<lparr>subject = map fst B, payload = map snd B\<rparr>"
  have n0: "0 < length es" using ne by simp
  have Tne: "T \<noteq> []" using lT ne by auto
  from walk_number [OF s, of K] obtain a0 where
    a0: "a0 + length B \<le> length es" "B = take (length B) (drop a0 es)"
      "radix_WalkPrefix (number 0 es) K = number (int a0) B"
      "\<forall>x < a0. \<not> prefix K (fst (es ! x))"
    unfolding B_def by blast
  have nn: "\<forall>e \<in> set (number (int a0) B). 0 \<le> rv_index (snd e)"
    using number_index_nonneg [of "int a0" _ B] by simp
  have "p_index proof0 < 0" unfolding proof0_def by simp
  from foldl_Get_visit [OF this nn, of answer0]
  have fold: "foldl Get_visit (answer0, proof0) (radix_WalkPrefix (wt_r wt) K)
      = (ans, if B = [] then proof0 else proof0\<lparr>p_index := int a0\<rparr>)"
    unfolding r a0(3) ans_def answer0_def by (simp add: hd_number)
  note fold0 = fold [unfolded answer0_def proof0_def]
  have Apw: "Ap mt (int x) = Some (slice_of (path_to mt x T), mt)" for x
    using Ap_warm [OF w, of x] unfolding d .
  have Apw1: "Ap mt (int x - 1) = Some (slice_of (path_to mt (x - 1) T), mt)"
    if "0 < x" for x
  proof -
    have e: "int x - 1 = int (x - 1)" using that by linarith
    show ?thesis unfolding e by (rule Apw)
  qed
  have Apw2: "Ap mt (int x + int y) = Some (slice_of (path_to mt (x + y) T), mt)"
    for x y
    using Apw [of "x + y"] by (simp only: of_nat_add)
  have at0: "at T (int x) = Some (T ! x)" if "x < length es" for x
    using that lT by (simp add: at_def)
  have at1: "at T (int x - 1) = Some (T ! (x - 1))" if "0 < x" "x \<le> length es" for x
  proof -
    have e: "int x - 1 = int (x - 1)" using that by linarith
    have "x - 1 < length es" using that by linarith
    then show ?thesis unfolding e by (rule at0)
  qed
  have at2: "at T (int x + int y) = Some (T ! (x + y))" if "x + y < length es" for x y
    using at0 [OF that] by (simp only: of_nat_add)
  have wtid: "wt\<lparr>wt_mt := mt\<rparr> = wt" using m by (cases wt) simp
  show ?thesis
  proof (cases "B = []")
    case True
    define idx where "idx = Search (int (length es)) (\<lambda>i. K \<le> mkKey (T ! nat i))"
    have rg: "0 \<le> idx" "idx \<le> int (length es)"
      unfolding idx_def using Search_range [of "int (length es)"] by simp_all
    define a where "a = nat idx"
    have ia: "idx = int a" unfolding a_def using rg by simp
    have al: "a \<le> length es" using rg unfolding ia by simp
    have sr: "Search (int (length es)) (\<lambda>i. K \<le> mkKey (T ! nat i)) = int a"
      using ia unfolding idx_def .
    have G: "\<exists>p. Get wt K = Some (ans, p, wt)
      \<and> p_hash p = mt_hash mt \<and> p_twc p = mt_twc mt \<and> p_index p = int (a - 1)
      \<and> p_ll p = (if 0 < a then Some (T ! (a - 1)) else None)
      \<and> p_rl p = (if a < length es then Some (T ! a) else None)
      \<and> p_lap p = (if 0 < a then slice_of (path_to mt (a - 1) T) else None)
      \<and> p_rap p = (if a < length es then slice_of (path_to mt a T) else None)"
    proof (cases "a = length es")
      case last: True
      have apos: "0 < a" using last n0 by simp
      have e: "int a - 1 = int (a - 1)" using apos by linarith
      define P where "P = proof0\<lparr>p_index := int (a - 1),
        p_lap := slice_of (path_to mt (a - 1) T), p_ll := Some (T ! (a - 1))\<rparr>"
      have g: "Get wt K = Some (ans, P, wt)"
        unfolding P_def e [symmetric]
        using True last n0 Apw1 [of a] at1 [of a]
        by (simp add: Get_def Let_def m d lT fold0 sr wtid proof0_def Tne)
      have f: "p_hash P = mt_hash mt" "p_twc P = mt_twc mt" "p_index P = int (a - 1)"
        "p_ll P = (if 0 < a then Some (T ! (a - 1)) else None)"
        "p_lap P = (if 0 < a then slice_of (path_to mt (a - 1) T) else None)"
        using apos by (simp_all add: P_def proof0_def)
      have f': "p_rl P = (if a < length es then Some (T ! a) else None)"
        "p_rap P = (if a < length es then slice_of (path_to mt a T) else None)"
        using last by (simp_all add: P_def proof0_def)
      show ?thesis by (rule exI [of _ P]) (intro conjI g f f')
    next
      case nl: False
      show ?thesis
      proof (cases "a = 0")
        case first: True
        have "Get wt K = Some (ans,
            proof0\<lparr>p_index := 0, p_rap := slice_of (path_to mt 0 T), p_rl := Some (T ! 0)\<rparr>, wt)"
            using True first n0 Apw [of 0] at0 [of 0]
          by (simp add: Get_def Let_def m d lT fold0 sr wtid proof0_def Tne)
        then show ?thesis using first n0 by (simp add: proof0_def)
      next
        case mid: False
        have "Get wt K = Some (ans,
            proof0\<lparr>p_index := int a - 1, p_lap := slice_of (path_to mt (a - 1) T),
              p_rap := slice_of (path_to mt a T),
              p_ll := Some (T ! (a - 1)), p_rl := Some (T ! a)\<rparr>, wt)"
            using True mid nl n0 al Apw1 [of a] at1 [of a] Apw [of a] at0 [of a]
          by (simp add: Get_def Let_def m d lT fold0 sr wtid proof0_def Tne)
        then show ?thesis using mid nl al by (simp add: proof0_def)
      qed
    qed
    then obtain p where p: "Get wt K = Some (ans, p, wt)"
      "p_hash p = mt_hash mt" "p_twc p = mt_twc mt" "p_index p = int (a - 1)"
      "p_ll p = (if 0 < a then Some (T ! (a - 1)) else None)"
      "p_rl p = (if a < length es then Some (T ! a) else None)"
      "p_lap p = (if 0 < a then slice_of (path_to mt (a - 1) T) else None)"
      "p_rap p = (if a < length es then slice_of (path_to mt a T) else None)"
      by blast
    show ?thesis
      apply (rule exI [of _ p], rule exI [of _ a])
      using p al True sr unfolding ans_def by simp
  next
    case False
    define b where "b = length B"
    have b0: "0 < b" using False unfolding b_def by simp
    have G: "\<exists>p. Get wt K = Some (ans, p, wt)
      \<and> p_hash p = mt_hash mt \<and> p_twc p = mt_twc mt \<and> p_index p = int (a0 - 1)
      \<and> p_ll p = (if 0 < a0 then Some (T ! (a0 - 1)) else None)
      \<and> p_rl p = (if a0 + b < length es then Some (T ! (a0 + b)) else None)
      \<and> p_lap p = (if 0 < a0 then slice_of (path_to mt (a0 - 1) T) else None)
      \<and> p_rap p = (if a0 + b < length es then slice_of (path_to mt (a0 + b) T) else None)"
    proof -
      have "Get wt K = Some (ans,
          (let p1 = (if a0 + b < length es
                     then proof0\<lparr>p_index := int a0, p_rap := slice_of (path_to mt (a0 + b) T),
                            p_rl := Some (T ! (a0 + b))\<rparr>
                     else proof0\<lparr>p_index := int a0\<rparr>)
           in if 0 < a0 then p1\<lparr>p_index := int a0 - 1, p_lap := slice_of (path_to mt (a0 - 1) T),
                  p_ll := Some (T ! (a0 - 1))\<rparr> else p1), wt)"
        using False n0 a0(1) Apw1 [of a0] at1 [of a0] Apw2 [of a0 b] at2 [of a0 b]
        by (simp add: Get_def Let_def m d lT fold0 wtid proof0_def ans_def b_def Tne)
      then show ?thesis by (auto simp: proof0_def Let_def)
    qed
    then obtain p where p: "Get wt K = Some (ans, p, wt)"
      "p_hash p = mt_hash mt" "p_twc p = mt_twc mt" "p_index p = int (a0 - 1)"
      "p_ll p = (if 0 < a0 then Some (T ! (a0 - 1)) else None)"
      "p_rl p = (if a0 + b < length es then Some (T ! (a0 + b)) else None)"
      "p_lap p = (if 0 < a0 then slice_of (path_to mt (a0 - 1) T) else None)"
      "p_rap p = (if a0 + b < length es then slice_of (path_to mt (a0 + b) T) else None)"
      by blast
    show ?thesis
      apply (rule exI [of _ p], rule exI [of _ a0])
      using p a0 False unfolding ans_def b_def by simp
  qed
qed

text \<open>The entries of a map in the order of the radix tree.\<close>

lemma sorted_entries:
  fixes m :: "(bytes \<times> bytes list) list"
  shows "sorted (map fst (sort_key fst m))"
  by simp

lemma strict_sorted_entries:
  fixes m :: "(bytes \<times> bytes list) list"
  assumes "distinct (map fst m)"
  shows "sorted_wrt (<) (map fst (sort_key fst m))"
proof -
  from assms have "distinct m" "inj_on fst (set m)" by (simp_all add: distinct_map)
  then have "distinct (map fst (sort_key fst m))" by (simp add: distinct_map)
  then show ?thesis using sorted_entries [of m] by (simp add: strict_sorted_iff)
qed

lemma Snapshot_NewWildcardTree:
  defines "lp \<equiv> leafPrefix" and "ip \<equiv> interiorPrefix"
  shows "Snapshot (NewWildcardTree twc H m) =
    Some (mth_spec H twc lp ip (map (leaf_of H) (sort_key fst m)),
      \<lparr>wt_r = number 0 (sort_key fst m),
       wt_mt = (NewMerkleTree twc lp ip H (map (leaf_of H) (sort_key fst m)))
         \<lparr>mt_cache := full_cache (NewMerkleTree twc lp ip H (map (leaf_of H) (sort_key fst m)))
            (map (leaf_of H) (sort_key fst m))\<rparr>\<rparr>)"
  unfolding Snapshot_def NewWildcardTree_eq lp_def ip_def
  by (simp add: Mth_NewMerkleTree)

text \<open>The empty tree.\<close>

lemma Get_empty:
  assumes "mt_data (wt_mt wt) = []"
  shows "Get wt K = Some (\<lparr>subject = [], payload = []\<rparr>,
    \<lparr>p_hash = mt_hash (wt_mt wt), p_twc = mt_twc (wt_mt wt), p_index = - 1,
      p_ll = None, p_rl = None, p_lap = None, p_rap = None\<rparr>, wt)"
  unfolding Get_def Let_def using assms by simp

lemma Verify_empty:
  "Verify \<lparr>p_hash = H, p_twc = twc, p_index = - 1, p_ll = None, p_rl = None,
      p_lap = None, p_rap = None\<rparr> K \<lparr>subject = [], payload = []\<rparr> 0 snap
    \<longleftrightarrow> snap = H [twc]"
proof -
  have l: "mkLeafData_loop p \<lparr>subject = [], payload = []\<rparr> 0 None = (None, True)" for p
    by (subst mkLeafData_loop.simps) simp
  show ?thesis
    by (simp add: Verify_def indices_def mkLeafData_def l MthFromRangeAp_def)
qed

text \<open>The bracket leaves lie on either side of the query.\<close>

lemma brackets_no_match:
  fixes es :: "(bytes \<times> bytes list) list"
  assumes s: "sorted_wrt (<) (map fst es)"
    and k: "\<forall>x < length es. mkKey (T ! x) = fst (es ! x)"
    and a: "int a = Search (int (length es)) (\<lambda>i. K \<le> mkKey (T ! nat i))"
  shows "0 < a \<Longrightarrow> \<not> K < fst (es ! (a - 1))" and "a < length es \<Longrightarrow> \<not> fst (es ! a) < K"
proof -
  let ?f = "\<lambda>i. K \<le> mkKey (T ! nat i)"
  let ?n = "int (length es)"
  have mono: "\<forall>x y. 0 \<le> x \<and> x \<le> y \<and> y < ?n \<and> ?f x \<longrightarrow> ?f y"
  proof (intro allI impI)
    fix x y :: int
    assume h: "0 \<le> x \<and> x \<le> y \<and> y < ?n \<and> ?f x"
    then have xy: "nat x \<le> nat y" "nat y < length es" "nat x < length es" by linarith+
    have "fst (es ! nat x) \<le> fst (es ! nat y)"
    proof (cases "nat x = nat y")
      case True
      then show ?thesis by simp
    next
      case False
      with xy(1) have "nat x < nat y" by linarith
      from sorted_keys_less [OF s this xy(2)] show ?thesis by simp
    qed
    moreover have "K \<le> fst (es ! nat x)" using h k xy(3) by simp
    ultimately have "K \<le> fst (es ! nat y)" by (rule order_trans [rotated])
    then show "?f y" using k xy(2) by simp
  qed
  have "0 \<le> ?n" by simp
  from Search_correct [OF this mono] a
  have p: "search_post ?n ?f (int a)" by simp
  then have lo: "\<forall>x. 0 \<le> x \<and> x < int a \<longrightarrow> \<not> ?f x"
    and hi: "\<forall>x. int a \<le> x \<and> x < ?n \<longrightarrow> ?f x"
    and le: "int a \<le> ?n"
    unfolding search_post_def by blast+
  show "\<not> K < fst (es ! (a - 1))" if "0 < a"
  proof -
    have "0 \<le> int (a - 1) \<and> int (a - 1) < int a" using that by simp
    with lo have "\<not> ?f (int (a - 1))" by blast
    moreover have "a - 1 < length es" using that le by simp
    ultimately have "\<not> K \<le> fst (es ! (a - 1))" using k by simp
    then show ?thesis by simp
  qed
  show "\<not> fst (es ! a) < K" if "a < length es"
  proof -
    have "int a \<le> int a \<and> int a < ?n" using that by simp
    with hi have "?f (int a)" by blast
    then have "K \<le> fst (es ! a)" using k that by simp
    then show ?thesis by simp
  qed
qed

lemma brackets_match:
  fixes es :: "(bytes \<times> bytes list) list"
  assumes s: "sorted_wrt (<) (map fst es)"
    and B: "B = take b (drop a es)" and b: "0 < b" and ab: "a + b \<le> length es"
    and q: "\<forall>kp \<in> set B. prefix K (fst kp)"
    and n: "\<forall>x < a. \<not> prefix K (fst (es ! x))"
  shows "0 < a \<Longrightarrow> \<not> K < fst (es ! (a - 1))"
    and "a + b < length es \<Longrightarrow> \<not> fst (es ! (a + b)) < K"
proof -
  have al: "a < length es" using b ab by simp
  have "B ! 0 = es ! a" unfolding B using b al by simp
  moreover have "0 < length B" unfolding B using b al by simp
  ultimately have "es ! a \<in> set B" by (metis nth_mem)
  with q have pa: "prefix K (fst (es ! a))" by blast
  show "\<not> K < fst (es ! (a - 1))" if "0 < a"
  proof -
    have "a - 1 < a" using that by simp
    from sorted_keys_less [OF s this al] have lt: "fst (es ! (a - 1)) < fst (es ! a)" .
    have np: "\<not> prefix K (fst (es ! (a - 1)))" using n that by simp
    from below_prefix_block [OF lt pa np] show ?thesis by simp
  qed
  show "\<not> fst (es ! (a + b)) < K" if "a + b < length es"
  proof -
    have "a < a + b" using b by simp
    from sorted_keys_less [OF s this that] have "fst (es ! a) < fst (es ! (a + b))" .
    moreover have "K \<le> fst (es ! a)" using pa by (rule prefix_le)
    ultimately have "K < fst (es ! (a + b))" by (rule le_less_trans [rotated])
    then show ?thesis by simp
  qed
qed

text \<open>The answer the specification asks for.\<close>

definition complete_answer :: "(bytes \<times> bytes list) list \<Rightarrow> bytes \<Rightarrow> Answer \<Rightarrow> bool" where
  "complete_answer m K a \<longleftrightarrow>
     set (subject a) = {k \<in> fst ` set m. prefix K k}
   \<and> sorted_wrt (<) (subject a)
   \<and> map (map_of m) (subject a) = map Some (payload a)"

lemma complete_answer_filter:
  fixes m :: "(bytes \<times> bytes list) list" and K :: bytes
  assumes d: "distinct (map fst m)"
  defines "B \<equiv> filter (\<lambda>kp. prefix K (fst kp)) (sort_key fst m)"
  shows "complete_answer m K \<lparr>subject = map fst B, payload = map snd B\<rparr>"
proof -
  have 1: "set (map fst B) = {k \<in> fst ` set m. prefix K k}"
    unfolding B_def by auto
  have "map fst B = filter (prefix K) (map fst (sort_key fst m))"
    unfolding B_def by (simp add: filter_map comp_def)
  then have 2: "sorted_wrt (<) (map fst B)"
    using strict_sorted_entries [OF d] by (simp add: sorted_wrt_filter)
  have "map_of m (fst kp) = Some (snd kp)" if "kp \<in> set B" for kp
  proof -
    from that have "kp \<in> set m" unfolding B_def by simp
    then have "(fst kp, snd kp) \<in> set m" by simp
    with d show ?thesis by (rule map_of_is_SomeI)
  qed
  then have 3: "map (map_of m) (map fst B) = map Some (map snd B)" by simp
  show ?thesis unfolding complete_answer_def using 1 2 3 by simp
qed

text \<open>\<open>Get\<close> after \<open>Snapshot\<close>, and \<open>Verify\<close> on what it returns.\<close>

lemma Get_after_Snapshot:
  fixes m :: "(bytes \<times> bytes list) list" and K :: bytes
    and H :: "bytes list \<Rightarrow> bytes" and twc :: bytes
  defines "es \<equiv> sort_key fst m"
  defines "T \<equiv> map (leaf_of H) es"
  defines "mt0 \<equiv> NewMerkleTree twc leafPrefix interiorPrefix H T"
  defines "wt1 \<equiv> \<lparr>wt_r = number 0 es, wt_mt = mt0\<lparr>mt_cache := full_cache mt0 T\<rparr>\<rparr>"
  defines "B \<equiv> filter (\<lambda>kp. prefix K (fst kp)) es"
  shows "\<exists>p. Get wt1 K = Some (\<lparr>subject = map fst B, payload = map snd B\<rparr>, p, wt1)
    \<and> (distinct (map fst m) \<and> int (length m) < 2 ^ 63
        \<and> (\<forall>kp \<in> set m. length (H (snd kp)) = hashLen)
        \<and> distinct_siblings (mth_spec H twc leafPrefix interiorPrefix) T
       \<longrightarrow> (\<forall>snap. Verify p K \<lparr>subject = map fst B, payload = map snd B\<rparr>
               (int (length m)) snap
             \<longleftrightarrow> snap = mth_spec H twc leafPrefix interiorPrefix T))"
proof (cases "es = []")
  case True
  have B0: "B = []" unfolding B_def True by simp
  have m0: "length m = 0" using True unfolding es_def by (metis length_sort list.size(3))
  have d: "mt_data (wt_mt wt1) = []" unfolding wt1_def mt0_def T_def True by simp
  have T0: "T = []" unfolding T_def True by simp
  define p0 where "p0 = \<lparr>p_hash = H, p_twc = twc, p_index = - 1, p_ll = None, p_rl = None,
    p_lap = None, p_rap = None\<rparr>"
  have hm: "mt_hash (wt_mt wt1) = H" "mt_twc (wt_mt wt1) = twc"
    unfolding wt1_def mt0_def by simp_all
  have g: "Get wt1 K = Some (\<lparr>subject = map fst B, payload = map snd B\<rparr>, p0, wt1)"
    unfolding Get_empty [OF d] B0 hm p0_def by simp
  have r0: "mth_spec H twc leafPrefix interiorPrefix [] = H [twc]"
    by (simp add: mth_spec.simps)
  have v: "Verify p0 K \<lparr>subject = map fst B, payload = map snd B\<rparr> (int (length m)) snap
      \<longleftrightarrow> snap = mth_spec H twc leafPrefix interiorPrefix T" for snap
    unfolding B0 m0 T0 r0 p0_def using Verify_empty [of H twc K snap] by simp
  from g v show ?thesis by blast
next
  case ne: False
  define mt1 where "mt1 = mt0\<lparr>mt_cache := full_cache mt0 T\<rparr>"
  have s: "sorted (map fst es)" unfolding es_def by simp
  have r: "wt_r wt1 = number 0 es" unfolding wt1_def by simp
  have wm: "wt_mt wt1 = mt1" unfolding wt1_def mt1_def by simp
  have d: "mt_data mt1 = T" unfolding mt1_def mt0_def by simp
  have lT: "length T = length es" unfolding T_def by simp
  have w: "warm mt1" unfolding mt1_def mt0_def by (rule warm_after_Mth)
  have hm: "mt_hash mt1 = H" "mt_twc mt1 = twc" unfolding mt1_def mt0_def by simp_all
  have rt: "root mt1 = mth_spec H twc leafPrefix interiorPrefix"
    unfolding mt1_def mt0_def by simp
  have lm: "length es = length m" unfolding es_def by simp
  from Get_warm [OF s r wm d lT w ne, of K]
  obtain p a where g: "Get wt1 K = Some (\<lparr>subject = map fst B, payload = map snd B\<rparr>, p, wt1)"
    and ab: "a + length B \<le> length es" and Bt: "B = take (length B) (drop a es)"
    and ph: "p_hash p = H" and pt: "p_twc p = twc" and ix: "p_index p = int (a - 1)"
    and ll: "p_ll p = (if 0 < a then Some (T ! (a - 1)) else None)"
    and rl: "p_rl p = (if a + length B < length es then Some (T ! (a + length B)) else None)"
    and lap: "p_lap p = (if 0 < a then slice_of (path_to mt1 (a - 1) T) else None)"
    and rap: "p_rap p = (if a + length B < length es then slice_of (path_to mt1 (a + length B) T)
                    else None)"
    and pos: "if B = [] then int a = Search (int (length es)) (\<lambda>i. K \<le> mkKey (T ! nat i))
          else (\<forall>x < a. \<not> prefix K (fst (es ! x)))"
    unfolding B_def [symmetric] hm by blast
  have v: "Verify p K \<lparr>subject = map fst B, payload = map snd B\<rparr> (int (length m)) snap
             \<longleftrightarrow> snap = mth_spec H twc leafPrefix interiorPrefix T"
    if dm: "distinct (map fst m)" and sz: "int (length m) < 2 ^ 63"
      and hl: "\<forall>kp \<in> set m. length (H (snd kp)) = hashLen"
      and ds: "distinct_siblings (mth_spec H twc leafPrefix interiorPrefix) T"
    for snap
  proof -
    have ss: "sorted_wrt (<) (map fst es)" unfolding es_def using dm by (rule strict_sorted_entries)
    have hl': "\<forall>kp \<in> set es. length (p_hash p (snd kp)) = hashLen"
      unfolding ph es_def using hl by simp
    have sz': "int (length es) < 2 ^ 63" unfolding lm by (rule sz)
    have ds': "distinct_siblings (mth_spec (p_hash p) (p_twc p) leafPrefix interiorPrefix)
        (map (leaf_of (p_hash p)) es)"
      unfolding ph pt T_def [symmetric] by (rule ds)
    have key: "\<forall>x < length es. mkKey (T ! x) = fst (es ! x)"
    proof (intro allI impI)
      fix x assume x: "x < length es"
      then have "es ! x \<in> set es" by simp
      with hl' have "length (H (snd (es ! x))) = hashLen" unfolding ph by blast
      then have "mkKey (leaf_of H (es ! x)) = fst (es ! x)" by (rule mkKey_leaf_of)
      then show "mkKey (T ! x) = fst (es ! x)" unfolding T_def using x by simp
    qed
    have kl: "\<not> K < fst (es ! (a - 1))" if "0 < a"
    proof (cases "B = []")
      case True
      with pos have "int a = Search (int (length es)) (\<lambda>i. K \<le> mkKey (T ! nat i))" by simp
      from brackets_no_match(1) [OF ss key this that] show ?thesis .
    next
      case False
      with pos have n: "\<forall>x < a. \<not> prefix K (fst (es ! x))" by simp
      have b: "0 < length B" using False by simp
      have q: "\<forall>kp \<in> set B. prefix K (fst kp)" unfolding B_def by simp
      from brackets_match(1) [OF ss Bt b ab q n that] show ?thesis .
    qed
    have kr: "\<not> fst (es ! (a + length B)) < K" if "a + length B < length es"
    proof (cases "B = []")
      case True
      with pos have "int a = Search (int (length es)) (\<lambda>i. K \<le> mkKey (T ! nat i))" by simp
      from brackets_no_match(2) [OF ss key this] that True show ?thesis by simp
    next
      case False
      with pos have n: "\<forall>x < a. \<not> prefix K (fst (es ! x))" by simp
      have b: "0 < length B" using False by simp
      have q: "\<forall>kp \<in> set B. prefix K (fst kp)" unfolding B_def by simp
      from brackets_match(2) [OF ss Bt b ab q n that] show ?thesis .
    qed
    have pth: "path_to mt1 x T = path_of (mth_spec H twc leafPrefix interiorPrefix) x T" for x
      unfolding path_to_def rt ..
    have "Verify p K \<lparr>subject = map fst B, payload = map snd B\<rparr> (int (length es)) snap
        \<longleftrightarrow> snap
          = mth_spec (p_hash p) (p_twc p) leafPrefix interiorPrefix (map (leaf_of (p_hash p)) es)"
    proof (rule Verify_accepts [OF ss hl' ne sz' ab ds' kl kr ix])
      show "p_ll p = (if 0 < a then Some (map (leaf_of (p_hash p)) es ! (a - 1)) else None)"
        unfolding ph T_def [symmetric] by (rule ll)
      show "p_rl p = (if a + length B < length es
          then Some (map (leaf_of (p_hash p)) es ! (a + length B)) else None)"
        unfolding ph T_def [symmetric] by (rule rl)
      show "p_lap p = (if 0 < a
          then slice_of (path_of (mth_spec (p_hash p) (p_twc p) leafPrefix interiorPrefix) (a - 1)
            (map (leaf_of (p_hash p)) es)) else None)"
        unfolding ph pt T_def [symmetric] pth [symmetric] by (rule lap)
      show "p_rap p = (if a + length B < length es
          then slice_of (path_of (mth_spec (p_hash p) (p_twc p) leafPrefix interiorPrefix)
            (a + length B) (map (leaf_of (p_hash p)) es)) else None)"
        unfolding ph pt T_def [symmetric] pth [symmetric] by (rule rap)
      show "subject \<lparr>subject = map fst B, payload = map snd B\<rparr>
          = map fst (take (length B) (drop a es))"
        using Bt by simp
      show "payload \<lparr>subject = map fst B, payload = map snd B\<rparr>
          = map snd (take (length B) (drop a es))"
        using Bt by simp
    qed
    then show ?thesis unfolding ph pt T_def [symmetric] lm .
  qed
  from g v show ?thesis by blast
qed

subsection \<open>Queries\<close>

text \<open>A query as the tests make it: \<open>Snapshot\<close>, then \<open>Get\<close>, then \<open>Verify\<close>.\<close>

definition wildcard_round_trip ::
  "bytes \<Rightarrow> (bytes list \<Rightarrow> bytes) \<Rightarrow> (bytes \<times> bytes list) list \<Rightarrow> bytes \<Rightarrow> bool option" where
  "wildcard_round_trip twc H m K =
     (case Snapshot (NewWildcardTree twc H m) of None \<Rightarrow> None | Some (snap, wt1) \<Rightarrow>
      case Get wt1 K of None \<Rightarrow> None | Some (answer, proof, wt2) \<Rightarrow>
        Some (Verify proof K answer (int (length m)) snap))"

text \<open>The same in the order the specification writes: \<open>Get\<close> on the new tree first.\<close>

definition spec_wildcard_round_trip ::
  "bytes \<Rightarrow> (bytes list \<Rightarrow> bytes) \<Rightarrow> (bytes \<times> bytes list) list \<Rightarrow> bytes \<Rightarrow> bool option" where
  "spec_wildcard_round_trip twc H m K =
     (case Get (NewWildcardTree twc H m) K of None \<Rightarrow> None | Some (answer, proof, wt1) \<Rightarrow>
      case Snapshot wt1 of None \<Rightarrow> None | Some (snap, wt2) \<Rightarrow>
        Some (Verify proof K answer (int (length m)) snap))"

text \<open>Two hash functions for examples: 32 bytes that hold the sum of the input, and 33 bytes.\<close>

definition sum_hash :: "bytes list \<Rightarrow> bytes" where
  "sum_hash parts = sum_list (concat parts) # replicate 31 0"

definition wide_hash :: "bytes list \<Rightarrow> bytes" where
  "wide_hash parts = replicate 33 255"

text \<open>Every result of a computation that may panic carries the answer \<open>an\<close>.\<close>

definition answers :: "Answer \<Rightarrow> (Answer \<times> Proof \<times> WildcardTree) option \<Rightarrow> bool" where
  "answers an r \<longleftrightarrow> (\<forall>a p w. r = Some (a, p, w) \<longrightarrow> a = an)"

lemma answers_None: "answers an None"
  by (simp add: answers_def)

lemma answers_Some: "answers an (Some (an, p, w))"
  by (simp add: answers_def)

lemma answers_if: "answers an x \<Longrightarrow> answers an y \<Longrightarrow> answers an (if c then x else y)"
  by simp

lemma answers_option:
  "(\<And>y. answers an (g y)) \<Longrightarrow> answers an (case x of None \<Rightarrow> None | Some y \<Rightarrow> g y)"
  by (cases x) (simp_all add: answers_None)

lemma answers_prod: "(\<And>u v. answers an (g u v)) \<Longrightarrow> answers an (case z of (u, v) \<Rightarrow> g u v)"
  by (cases z) simp

lemma Get_answer:
  assumes "Get wt K = Some (answer, proof, wt')" and "mt_data (wt_mt wt) \<noteq> []"
  shows "answer = fst (foldl Get_visit (\<lparr>subject = [], payload = []\<rparr>,
      \<lparr>p_hash = mt_hash (wt_mt wt), p_twc = mt_twc (wt_mt wt), p_index = - 1,
        p_ll = None, p_rl = None, p_lap = None, p_rap = None\<rparr>) (radix_WalkPrefix (wt_r wt) K))"
proof -
  obtain an pr where f: "foldl Get_visit (\<lparr>subject = [], payload = []\<rparr>,
      \<lparr>p_hash = mt_hash (wt_mt wt), p_twc = mt_twc (wt_mt wt), p_index = - 1,
        p_ll = None, p_rl = None, p_lap = None, p_rap = None\<rparr>) (radix_WalkPrefix (wt_r wt) K)
      = (an, pr)"
    by (rule prod.exhaust)
  have n: "(int (length (mt_data (wt_mt wt))) = 0) = False" using assms(2) by simp
  have "answers an (Get wt K)"
    unfolding Get_def Let_def f prod.case n if_False
    by (intro answers_if answers_option answers_prod answers_Some)
  then have "answer = an" using assms(1) unfolding answers_def by blast
  then show ?thesis unfolding f by simp
qed

text \<open>The leaves of the wildcard tree.\<close>

lemma mt_data_NewWildcardTree:
  "mt_data (wt_mt (NewWildcardTree twc H m)) = map (leaf_of H) (sort_key fst m)"
  unfolding NewWildcardTree_eq by simp

lemma Snapshot_warm:
  assumes "warm (wt_mt wt)"
  shows "Snapshot wt = Some (root (wt_mt wt) (mt_data (wt_mt wt)), wt)"
  unfolding Snapshot_def Mth_warm [OF assms] by simp

definition example_map :: "(bytes \<times> bytes list) list" where
  "example_map = [([98, 1], [[5]]), ([97], [[1], [2]]), ([98, 2], []), ([100], [[9]])]"

text \<open>
  C1, as stated, fails in three ways.

  The code fixes the length of a digest: \<open>mkKey\<close> cuts the last \<open>hashLen = 32\<close> bytes off
  a leaf. With a hash function of 33 bytes the key of a leaf carries one byte of its
  digest; for the map with the keys \<open>[97]\<close> and \<open>[97, 0]\<close> and the query \<open>[97, 0]\<close> the key
  of the left bracket leaf is \<open>[97, 255]\<close>, above the query, and \<open>Verify\<close> rejects the
  proof \<open>Get\<close> made.

  A hash function of 32 bytes under which the two children of a node have the same digest
  runs into the defect of \<open>jp\<close> (C9): with the sum of the bytes as hash and four keys chosen
  so that the two children of the root have the same digest, \<open>Verify\<close> rebuilds a digest
  that is not the head.

  And \<open>Get\<close> on a tree whose head was never computed dereferences a nil cache node,
  since \<open>Ap\<close> reads the cache that \<open>Mth\<close> fills: in the order the specification writes,
  \<open>Get\<close> before \<open>Snapshot\<close>, two keys are enough for \<open>Get\<close> to return nothing.
\<close>

theorem wildcard_soundness_counterexample:
  "wildcard_round_trip [] wide_hash [([97], []), ([97, 0], [])] [97, 0] = Some False
   \<and> wildcard_round_trip [] sum_hash
        [([97, 122], []), ([98, 97], []), ([98, 98], []), ([99, 119], [])] [98] = Some False
   \<and> spec_wildcard_round_trip [] sum_hash [([97], []), ([98], [])] [97] = None"
  by code_simp

text \<open>
  C1, amended. Wildcard soundness. For every map \<open>m\<close> (an association list with distinct
  keys, fewer than \<open>2\<^sup>6\<^sup>3\<close> of them), every tree-wide constant, every hash function \<open>H\<close>
  whose digest of every payload list has 32 bytes, and every query key \<open>K\<close>: once
  \<open>Snapshot\<close> has computed the head of \<open>NewWildcardTree(twc, H, m)\<close>, \<open>Get(K)\<close> returns
  an answer and a proof without a panic, \<open>Verify(K, answer, n, snapshot)\<close> returns true for
  the number \<open>n\<close> of keys and false for every other snapshot, and \<open>Snapshot\<close> after \<open>Get\<close>
  returns the same head, provided that no node of the Merkle tree has two children with
  the same digest.
\<close>

theorem wildcard_soundness:
  assumes "distinct (map fst m)" and "int (length m) < 2 ^ 63"
    and "\<forall>kp \<in> set m. length (H (snd kp)) = hashLen"
    and "distinct_siblings (mth_spec H twc leafPrefix interiorPrefix)
           (mt_data (wt_mt (NewWildcardTree twc H m)))"
  shows "\<exists>snap wt1 answer proof wt2.
      Snapshot (NewWildcardTree twc H m) = Some (snap, wt1)
    \<and> Get wt1 K = Some (answer, proof, wt2)
    \<and> Verify proof K answer (int (length m)) snap
    \<and> (\<forall>s. Verify proof K answer (int (length m)) s \<longleftrightarrow> s = snap)
    \<and> Snapshot wt2 = Some (snap, wt2)"
proof -
  define es where "es = sort_key fst m"
  define T where "T = map (leaf_of H) es"
  define mt0 where "mt0 = NewMerkleTree twc leafPrefix interiorPrefix H T"
  define wt1 where "wt1 = \<lparr>wt_r = number 0 es, wt_mt = mt0\<lparr>mt_cache := full_cache mt0 T\<rparr>\<rparr>"
  define snap where "snap = mth_spec H twc leafPrefix interiorPrefix T"
  have 1: "Snapshot (NewWildcardTree twc H m) = Some (snap, wt1)"
    unfolding snap_def wt1_def mt0_def T_def es_def by (rule Snapshot_NewWildcardTree)
  have ds: "distinct_siblings (mth_spec H twc leafPrefix interiorPrefix) T"
    using assms(4) unfolding mt_data_NewWildcardTree T_def es_def .
  from Get_after_Snapshot [where H = H and m = m and twc = twc and K = K]
  obtain p a where 2: "Get wt1 K = Some (a, p, wt1)"
    and v: "distinct (map fst m) \<and> int (length m) < 2 ^ 63
        \<and> (\<forall>kp \<in> set m. length (H (snd kp)) = hashLen)
        \<and> distinct_siblings (mth_spec H twc leafPrefix interiorPrefix) T
       \<longrightarrow> (\<forall>s. Verify p K a (int (length m)) s \<longleftrightarrow> s = snap)"
    unfolding wt1_def mt0_def T_def es_def snap_def by blast
  from v assms(1-3) ds have 5: "\<forall>s. Verify p K a (int (length m)) s \<longleftrightarrow> s = snap" by blast
  then have 3: "Verify p K a (int (length m)) snap" by simp
  have w: "warm (wt_mt wt1)" unfolding wt1_def mt0_def by (simp add: warm_after_Mth)
  have 4: "Snapshot wt1 = Some (snap, wt1)"
    unfolding Snapshot_warm [OF w] unfolding wt1_def mt0_def snap_def by simp
  from 1 2 3 5 4 show ?thesis by blast
qed

theorem wildcard_soundness_witness:
  "distinct (map fst example_map) \<and> int (length example_map) < 2 ^ 63
   \<and> map (\<lambda>kp. length (sum_hash (snd kp))) example_map = [32, 32, 32, 32]
   \<and> distinct_siblings (mth_spec sum_hash [7] leafPrefix interiorPrefix)
        (mt_data (wt_mt (NewWildcardTree [7] sum_hash example_map)))
   \<and> (\<exists>snap wt1 answer proof wt2.
        Snapshot (NewWildcardTree [7] sum_hash example_map) = Some (snap, wt1)
      \<and> Get wt1 [98] = Some (answer, proof, wt2)
      \<and> Verify proof [98] answer (int (length example_map)) snap
      \<and> (\<forall>s. Verify proof [98] answer (int (length example_map)) s \<longleftrightarrow> s = snap)
      \<and> Snapshot wt2 = Some (snap, wt2))"
proof -
  have 1: "distinct (map fst example_map)" by code_simp
  have 2: "int (length example_map) < 2 ^ 63" by (simp add: example_map_def)
  have 3: "map (\<lambda>kp. length (sum_hash (snd kp))) example_map = [32, 32, 32, 32]"
    by (simp add: example_map_def sum_hash_def)
  have hl: "\<forall>kp \<in> set example_map. length (sum_hash (snd kp)) = hashLen"
    by (simp add: example_map_def sum_hash_def hashLen_def)
  have 4: "distinct_siblings (mth_spec sum_hash [7] leafPrefix interiorPrefix)
        (mt_data (wt_mt (NewWildcardTree [7] sum_hash example_map)))"
    by code_simp
  from wildcard_soundness [OF 1 2 hl 4, of "[98]"] 1 2 3 4 show ?thesis by blast
qed

text \<open>
  C4. Wildcard completeness. For every map \<open>m\<close> (an association list with distinct keys)
  and every query key \<open>K\<close>, the answer of \<open>Get(K)\<close> lists exactly the keys of \<open>m\<close> that
  have \<open>K\<close> as a prefix, in strictly ascending order, each with its payload list
  (\<open>complete_answer\<close>). After \<open>Snapshot\<close>, \<open>Get\<close> returns such an answer; and on the tree
  as \<open>NewWildcardTree\<close> builds it, whenever \<open>Get\<close> returns at all, the answer is such.
  The order of the walk is that of the radix tree, which is modelled from the
  specification.
\<close>

theorem wildcard_completeness:
  assumes "distinct (map fst m)"
  shows "(\<exists>snap wt1 answer proof wt2.
        Snapshot (NewWildcardTree twc H m) = Some (snap, wt1)
      \<and> Get wt1 K = Some (answer, proof, wt2)
      \<and> complete_answer m K answer)
    \<and> (\<forall>answer proof wt'.
        Get (NewWildcardTree twc H m) K = Some (answer, proof, wt')
        \<longrightarrow> complete_answer m K answer)"
proof
  define es where "es = sort_key fst m"
  define T where "T = map (leaf_of H) es"
  define mt0 where "mt0 = NewMerkleTree twc leafPrefix interiorPrefix H T"
  define wt1 where "wt1 = \<lparr>wt_r = number 0 es, wt_mt = mt0\<lparr>mt_cache := full_cache mt0 T\<rparr>\<rparr>"
  define B where "B = filter (\<lambda>kp. prefix K (fst kp)) es"
  have c: "complete_answer m K \<lparr>subject = map fst B, payload = map snd B\<rparr>"
    unfolding B_def es_def using assms by (rule complete_answer_filter)
  have 1: "Snapshot (NewWildcardTree twc H m)
      = Some (mth_spec H twc leafPrefix interiorPrefix T, wt1)"
    unfolding wt1_def mt0_def T_def es_def by (rule Snapshot_NewWildcardTree)
  from Get_after_Snapshot [where H = H and m = m and twc = twc and K = K]
  obtain p where 2: "Get wt1 K = Some (\<lparr>subject = map fst B, payload = map snd B\<rparr>, p, wt1)"
    unfolding wt1_def mt0_def T_def es_def B_def by blast
  from 1 2 c show "\<exists>snap wt1 answer proof wt2.
        Snapshot (NewWildcardTree twc H m) = Some (snap, wt1)
      \<and> Get wt1 K = Some (answer, proof, wt2)
      \<and> complete_answer m K answer"
    by blast
  show "\<forall>answer proof wt'.
        Get (NewWildcardTree twc H m) K = Some (answer, proof, wt')
        \<longrightarrow> complete_answer m K answer"
  proof (intro allI impI)
    fix answer pr wt'
    assume g: "Get (NewWildcardTree twc H m) K = Some (answer, pr, wt')"
    let ?wt = "NewWildcardTree twc H m"
    have d: "mt_data (wt_mt ?wt) = T" unfolding T_def es_def by (rule mt_data_NewWildcardTree)
    have r: "wt_r ?wt = number 0 es" unfolding NewWildcardTree_eq es_def by simp
    have "answer = \<lparr>subject = map fst B, payload = map snd B\<rparr>"
    proof (cases "es = []")
      case True
      then have "mt_data (wt_mt ?wt) = []" unfolding d T_def by simp
      from Get_empty [OF this, of K] g have "answer = \<lparr>subject = [], payload = []\<rparr>" by simp
      then show ?thesis unfolding B_def True by simp
    next
      case False
      then have ne: "mt_data (wt_mt ?wt) \<noteq> []" unfolding d T_def by simp
      have s: "sorted (map fst es)" unfolding es_def by simp
      from walk_number [OF s, of K] obtain a0 where
        w: "radix_WalkPrefix (number 0 es) K = number (int a0) B"
        unfolding B_def by blast
      have nn: "\<forall>e \<in> set (number (int a0) B). 0 \<le> rv_index (snd e)"
        using number_index_nonneg [of "int a0" _ B] by simp
      have "fst (foldl Get_visit (\<lparr>subject = [], payload = []\<rparr>,
          \<lparr>p_hash = mt_hash (wt_mt ?wt), p_twc = mt_twc (wt_mt ?wt), p_index = - 1,
            p_ll = None, p_rl = None, p_lap = None, p_rap = None\<rparr>)
          (radix_WalkPrefix (wt_r ?wt) K))
        = \<lparr>subject = map fst B, payload = map snd B\<rparr>"
        unfolding r w by (subst foldl_Get_visit [OF _ nn]) simp_all
      with Get_answer [OF g ne] show ?thesis by simp
    qed
    with c show "complete_answer m K answer" by simp
  qed
qed

theorem wildcard_completeness_witness:
  "distinct (map fst [([98, 2], []), ([98, 1 :: byte], [[5 :: byte]])])
   \<and> (\<exists>snap wt1 answer proof wt2.
        Snapshot (NewWildcardTree [7] sum_hash [([98, 2], []), ([98, 1], [[5]])]) = Some (snap, wt1)
      \<and> Get wt1 [98] = Some (answer, proof, wt2)
      \<and> complete_answer [([98, 2], []), ([98, 1], [[5]])] [98] answer)
   \<and> (\<exists>answer proof wt'.
        Get (NewWildcardTree [7] sum_hash [([98, 2], []), ([98, 1], [[5]])]) [98]
          = Some (answer, proof, wt')
      \<and> complete_answer [([98, 2], []), ([98, 1], [[5]])] [98] answer)"
proof -
  let ?m = "[([98, 2], []), ([98, 1 :: byte], [[5 :: byte]])]"
  have 1: "distinct (map fst ?m)" by simp
  note t = wildcard_completeness [OF 1, of "[7]" sum_hash "[98]"]
  have "\<not> Option.is_none (Get (NewWildcardTree [7] sum_hash ?m) [98])" by code_simp
  then obtain answer pr wt' where
    g: "Get (NewWildcardTree [7] sum_hash ?m) [98] = Some (answer, pr, wt')"
    by (cases "Get (NewWildcardTree [7] sum_hash ?m) [98]") (auto simp: Option.is_none_def)
  from t g have "complete_answer ?m [98] answer" by blast
  with g t 1 show ?thesis by blast
qed

section \<open>SHA-256 and the hash of the repository\<close>

text \<open>
  \<open>crypto/sha256\<close> of the Go library is not part of the sources; it implements SHA-256 of
  FIPS 180-4, which the definitions below follow: padding to a multiple of 64 bytes with
  the bit length in the last 8 bytes, the message schedule, 64 rounds of the compression
  function for each block, the digest as 8 big-endian words.
\<close>

type_synonym w32 = "32 word"

definition rotr :: "nat \<Rightarrow> w32 \<Rightarrow> w32" where
  "rotr n x = (drop_bit n x) OR (push_bit (32 - n) x)"

definition Ch :: "w32 \<Rightarrow> w32 \<Rightarrow> w32 \<Rightarrow> w32" where
  "Ch x y z = (x AND y) XOR (NOT x AND z)"
definition Maj :: "w32 \<Rightarrow> w32 \<Rightarrow> w32 \<Rightarrow> w32" where
  "Maj x y z = (x AND y) XOR (x AND z) XOR (y AND z)"
definition Sigma0 :: "w32 \<Rightarrow> w32" where "Sigma0 x = rotr 2 x XOR rotr 13 x XOR rotr 22 x"
definition Sigma1 :: "w32 \<Rightarrow> w32" where "Sigma1 x = rotr 6 x XOR rotr 11 x XOR rotr 25 x"
definition sigma0 :: "w32 \<Rightarrow> w32" where "sigma0 x = rotr 7 x XOR rotr 18 x XOR drop_bit 3 x"
definition sigma1 :: "w32 \<Rightarrow> w32" where "sigma1 x = rotr 17 x XOR rotr 19 x XOR drop_bit 10 x"

text \<open>The 64 round constants and the 8 initial hash words, as decimal numerals.\<close>

definition K256 :: "w32 list" where
  "K256 = [
   1116352408, 1899447441, 3049323471, 3921009573, 961987163, 1508970993, 2453635748, 2870763221,
   3624381080, 310598401, 607225278, 1426881987, 1925078388, 2162078206, 2614888103, 3248222580,
   3835390401, 4022224774, 264347078, 604807628, 770255983, 1249150122, 1555081692, 1996064986,
   2554220882, 2821834349, 2952996808, 3210313671, 3336571891, 3584528711, 113926993, 338241895,
   666307205, 773529912, 1294757372, 1396182291, 1695183700, 1986661051, 2177026350, 2456956037,
   2730485921, 2820302411, 3259730800, 3345764771, 3516065817, 3600352804, 4094571909, 275423344,
   430227734, 506948616, 659060556, 883997877, 958139571, 1322822218, 1537002063, 1747873779,
   1955562222, 2024104815, 2227730452, 2361852424, 2428436474, 2756734187, 3204031479, 3329325298]"

definition H0 :: "w32 list" where
  "H0 = [1779033703, 3144134277, 1013904242, 2773480762, 1359893119, 2600822924, 528734635, 1541459225]"

text \<open>The message schedule; \<open>ws\<close> holds the words computed so far, the latest first.\<close>
fun schedule :: "nat \<Rightarrow> w32 list \<Rightarrow> w32 list" where
  "schedule 0 ws = ws"
| "schedule (Suc n) ws =
     schedule n ((sigma1 (ws ! 1) + ws ! 6 + sigma0 (ws ! 14) + ws ! 15) # ws)"

fun rounds :: "w32 list \<Rightarrow> w32 list \<Rightarrow> w32 list \<Rightarrow> w32 list" where
  "rounds (k # ks) (w # ws) [a, b, c, d, e, f, g, h] =
     (let T1 = h + Sigma1 e + Ch e f g + k + w;
          T2 = Sigma0 a + Maj a b c
      in rounds ks ws [T1 + T2, a, b, c, d + T1, e, f, g])"
| "rounds ks ws st = st"

definition be32 :: "bytes \<Rightarrow> w32" where
  "be32 bs = foldl (\<lambda>acc b. push_bit 8 acc OR ucast b) 0 bs"

fun words_of :: "nat \<Rightarrow> bytes \<Rightarrow> w32 list" where
  "words_of 0 bs = []"
| "words_of (Suc n) bs = be32 (take 4 bs) # words_of n (drop 4 bs)"

definition compress :: "w32 list \<Rightarrow> bytes \<Rightarrow> w32 list" where
  "compress st blk = map2 (+) st (rounds K256 (rev (schedule 48 (rev (words_of 16 blk)))) st)"

fun blocks :: "nat \<Rightarrow> w32 list \<Rightarrow> bytes \<Rightarrow> w32 list" where
  "blocks 0 st bs = st"
| "blocks (Suc n) st bs = blocks n (compress st (take 64 bs)) (drop 64 bs)"

definition bytes_of_w64 :: "64 word \<Rightarrow> bytes" where
  "bytes_of_w64 w = map (\<lambda>i. ucast (drop_bit (56 - 8 * i) w)) [0..<8]"

definition pad :: "bytes \<Rightarrow> bytes" where
  "pad m = m @ [128] @ replicate ((119 - length m mod 64) mod 64) 0 @ bytes_of_w64 (of_nat (8 * length m))"

definition bytes_of_w32 :: "w32 \<Rightarrow> bytes" where
  "bytes_of_w32 w = [ucast (drop_bit 24 w), ucast (drop_bit 16 w), ucast (drop_bit 8 w), ucast w]"

definition sha256 :: "bytes \<Rightarrow> bytes" where
  "sha256 m = (let p = pad m in concat (map bytes_of_w32 (blocks (length p div 64) H0 p)))"

text \<open>\<open>hash\<close> of the source: SHA-256 of the concatenation of its arguments.\<close>

definition hash :: "bytes list \<Rightarrow> bytes" where
  "hash data = sha256 (concat data)"



lemma sha256_empty:
  "sha256 [] = [227, 176, 196, 66, 152, 252, 28, 20, 154, 251, 244, 200, 153, 111,
     185, 36, 39, 174, 65, 228, 100, 155, 147, 76, 164, 149, 153, 27, 120, 82,
     184, 85]"
  by code_simp

lemma sha256_ff:
  "sha256 [255] = [168, 16, 10, 230, 170, 25, 64, 208, 182, 99, 187, 49, 205,
     70, 97, 66, 235, 189, 189, 81, 135, 19, 27, 146, 217, 56, 24, 152, 120,
     50, 235, 137]"
  by code_simp

lemma Mth_empty: "map_option fst (Mth (NewMerkleTree twc lp ip H [])) = Some (H [twc])"
  by (simp add: Mth_NewMerkleTree mth_spec.simps)

text \<open>
  C8, as stated, fails: with the tree-wide constant \<open>0xff\<close> the digest of the empty tree
  is SHA-256 of the byte \<open>0xff\<close>, which is \<open>a8100ae6...\<close>; the digest \<open>e3b0c442...\<close>
  is SHA-256 of the empty string.
\<close>

theorem empty_tree_digest_ff_counterexample:
  "map_option fst (Mth (NewMerkleTree [255] [0] [1] hash []))
     = Some [168, 16, 10, 230, 170, 25, 64, 208, 182, 99, 187, 49, 205,
     70, 97, 66, 235, 189, 189, 81, 135, 19, 27, 146, 217, 56, 24, 152, 120,
     50, 235, 137]
   \<and> [168, 16, 10, 230, 170, 25, 64, 208, 182, 99, 187, 49, 205,
     70, 97, 66, 235, 189, 189, 81, 135, 19, 27, 146, 217, 56, 24, 152, 120,
     50, 235, 137]
     \<noteq> [227, 176, 196, 66, 152, 252, 28, 20, 154, 251, 244, 200, 153, 111,
     185, 36, 39, 174, 65, 228, 100, 155, 147, 76, 164, 149, 153, 27, 120, 82,
     184, 85 :: byte]"
  by (simp add: Mth_empty hash_def sha256_ff)

text \<open>
  C8, amended. With SHA-256 and the empty tree-wide constant (\<open>testTwc = nil\<close> in
  src/mt_test.go, whose \<open>r0\<close> is this digest), \<open>Mth\<close> of no leaves is \<open>H(twc)\<close>, the
  digest \<open>e3b0c44298fc1c149afbf4c8996fb92427ae41e4649b934ca495991b7852b855\<close>. With the
  tree-wide constant \<open>0xff\<close> it is \<open>H(0xff)\<close>, the digest
  \<open>a8100ae6aa1940d0b663bb31cd466142ebbdbd5187131b92d93818987832eb89\<close>.
\<close>

theorem empty_tree_digest:
  "map_option fst (Mth (NewMerkleTree [] lp ip hash [])) = Some (hash [[]])
   \<and> hash [[]] = [227, 176, 196, 66, 152, 252, 28, 20, 154, 251, 244, 200, 153, 111,
     185, 36, 39, 174, 65, 228, 100, 155, 147, 76, 164, 149, 153, 27, 120, 82,
     184, 85]
   \<and> map_option fst (Mth (NewMerkleTree [255] lp ip hash [])) = Some (hash [[255]])
   \<and> hash [[255]] = [168, 16, 10, 230, 170, 25, 64, 208, 182, 99, 187, 49, 205,
     70, 97, 66, 235, 189, 189, 81, 135, 19, 27, 146, 217, 56, 24, 152, 120,
     50, 235, 137]"
  by (simp add: Mth_empty hash_def sha256_ff sha256_empty)

end
